theory Spec2Isabelle
  imports Complex_Main "HOL-Library.Word" "HOL-Library.Sublist"
begin

section \<open>jsonclip: the diagnosing parser and the path extractor of index.js\<close>

text \<open>
  The program is JavaScript. Its strings are sequences of UTF-16 code units, its
  \<^verbatim>\<open>length\<close> counts code units, and the offsets of its JSON parser are indices of
  code units, so a string is modelled as a list of 16-bit words. The regular expressions
  of the source only match code units of the ASCII range.
\<close>

subsection \<open>Strings\<close>

type_synonym jschar = "16 word"
type_synonym jsstring = "jschar list"

text \<open>An ASCII literal of the source as a JavaScript string.\<close>

definition js :: "string \<Rightarrow> jsstring" where
  "js s = map of_char s"

definition newline :: jschar where
  "newline = 10"

text \<open>The class \<^verbatim>\<open>\d\<close> of a regular expression without the unicode flag: 0 to 9.\<close>

definition is_digit :: "jschar \<Rightarrow> bool" where
  "is_digit c = (48 \<le> c \<and> c \<le> 57)"

text \<open>\<^verbatim>\<open>/^\d+$/.test(part)\<close>: at least one code unit, all of them digits.\<close>

definition test_digits :: "jsstring \<Rightarrow> bool" where
  "test_digits part = (part \<noteq> [] \<and> list_all is_digit part)"

text \<open>
  \<^verbatim>\<open>parseInt\<close> on a string of decimal digits, the only strings the source gives it
  (a capture of \<^verbatim>\<open>\d+\<close>, or a token that passed \<^verbatim>\<open>/^\d+$/\<close>). The result is the
  exact integer; the double that JavaScript computes equals it below \<open>2^53\<close>, and
  above that bound both are larger than any array or string length, which is all the
  source compares them with.
\<close>

definition digit_value :: "jschar \<Rightarrow> nat" where
  "digit_value c = unat c - 48"

definition parseInt :: "jsstring \<Rightarrow> nat" where
  "parseInt s = foldl (\<lambda>n c. 10 * n + digit_value c) 0 s"

text \<open>
  \<^verbatim>\<open>String.prototype.split\<close> with a separator that matches exactly one code unit
  (the string \<^verbatim>\<open>'\n'\<close>, or the pattern \<^verbatim>\<open>/\.|\[|\]/\<close>): the segments between
  the matches, empty ones included; the empty string gives one empty segment.
\<close>

fun split_on :: "(jschar \<Rightarrow> bool) \<Rightarrow> jsstring \<Rightarrow> jsstring list" where
  "split_on sep [] = [[]]"
| "split_on sep (c # cs) =
     (if sep c then [] # split_on sep cs
      else (case split_on sep cs of
              [] \<Rightarrow> [[c]]
            | s # ss \<Rightarrow> (c # s) # ss))"

subsection \<open>Path tokens (extractPath, line 126)\<close>

text \<open>The alternatives of \<^verbatim>\<open>/\.|\[|\]/\<close>: a dot, an opening or a closing bracket.\<close>

definition is_delim :: "jschar \<Rightarrow> bool" where
  "is_delim c = (c = 46 \<or> c = 91 \<or> c = 93)"

text \<open>\<^verbatim>\<open>path.split(/\.|\[|\]/).filter(p => p !== '')\<close>\<close>

definition path_parts :: "jsstring \<Rightarrow> jsstring list" where
  "path_parts path = filter (\<lambda>p. p \<noteq> []) (split_on is_delim path)"

text \<open>
  The wording of the specification, for comparison with the source: split on the pattern
  "one or more of dot, opening bracket, closing bracket", so that a whole run of
  delimiters is one separator, then drop the empty segments.
\<close>

function split_on_runs :: "(jschar \<Rightarrow> bool) \<Rightarrow> jsstring \<Rightarrow> jsstring list" where
  "split_on_runs sep [] = [[]]"
| "split_on_runs sep (c # cs) =
     (if sep c then [] # split_on_runs sep (dropWhile sep cs)
      else (case split_on_runs sep cs of
              [] \<Rightarrow> [[c]]
            | s # ss \<Rightarrow> (c # s) # ss))"
  by pat_completeness auto
termination
  by (relation "measure (\<lambda>(sep, s). length s)")
     (auto simp: length_dropWhile_le less_Suc_eq_le)

definition spec_path_parts :: "jsstring \<Rightarrow> jsstring list" where
  "spec_path_parts path = filter (\<lambda>p. p \<noteq> []) (split_on_runs is_delim path)"

subsection \<open>Values\<close>

text \<open>
  What a variable of \<^verbatim>\<open>extractPath\<close> can hold. \<^verbatim>\<open>JSON.parse\<close> produces null,
  booleans, numbers, strings, arrays and objects with string keys in insertion order;
  \<open>JUndefined\<close> is JavaScript's \<^verbatim>\<open>undefined\<close>, the value the source returns for
  a path that does not resolve. Property lookup in JavaScript also follows the prototype
  chain, whose objects and functions belong to the host and not to the document:
  \<open>JBuiltin\<close> is such a host value, identified by its name. Numbers pass through the
  program untouched: a finite number is carried as a real, with the equality of
  \<^verbatim>\<open>===\<close>, which does not tell \<^verbatim>\<open>-0\<close> from \<^verbatim>\<open>0\<close>; the two infinities, which
  \<^verbatim>\<open>JSON.parse\<close> returns for a literal beyond the range of a double, are
  \<open>JInfinity False\<close> and \<open>JInfinity True\<close> (the negative one).
\<close>

datatype jsval =
    JUndefined
  | JNull
  | JBool bool
  | JNum real
  | JInfinity bool
  | JStr jsstring
  | JArr "jsval list"
  | JObj "(jsstring \<times> jsval) list"
  | JBuiltin string

datatype jstype = TUndefined | TObject | TBoolean | TNumber | TString | TFunction

datatype js_error =
    SyntaxError jsstring
  | Error jsstring
  | TypeError
  | RangeError
  | NotModelled

text \<open>
  The host, as far as property lookup on a parsed document can see it. The built-in
  prototypes are not part of the repository and differ between versions of the
  runtime, so they are a parameter:
  \<^item> \<open>object_inherited\<close>: the properties an ordinary object inherits, by name, with
    the value a read yields (\<^verbatim>\<open>constructor\<close>, \<^verbatim>\<open>toString\<close>, ...);
  \<^item> \<open>array_inherited\<close>: the same for an array (\<^verbatim>\<open>map\<close>, \<^verbatim>\<open>push\<close>, ..., and
    what it inherits further up the chain);
  \<^item> \<open>builtin_object\<close>: whether \<^verbatim>\<open>typeof\<close> of a host value is \<^verbatim>\<open>'object'\<close>
    (a prototype object) rather than \<^verbatim>\<open>'function'\<close>;
  \<^item> \<open>builtin_array\<close>: whether \<^verbatim>\<open>Array.isArray\<close> holds of a host value
    (it does of \<^verbatim>\<open>Array.prototype\<close>);
  \<^item> \<open>builtin_props\<close>: the properties of a host value, own and inherited.
  No prototype has a property named by a number, so an index read past the end of an
  array finds nothing on the chain and yields \<^verbatim>\<open>undefined\<close>.
\<close>

record host =
  object_inherited :: "jsstring \<rightharpoonup> jsval"
  array_inherited :: "jsstring \<rightharpoonup> jsval"
  builtin_object :: "string \<Rightarrow> bool"
  builtin_array :: "string \<Rightarrow> bool"
  builtin_props :: "string \<Rightarrow> jsstring \<rightharpoonup> jsval"

text \<open>\<^verbatim>\<open>current == null\<close>: loose equality holds of null and of undefined only.\<close>

definition eq_null :: "jsval \<Rightarrow> bool" where
  "eq_null v = (v = JNull \<or> v = JUndefined)"

fun typeof :: "host \<Rightarrow> jsval \<Rightarrow> jstype" where
  "typeof h JUndefined = TUndefined"
| "typeof h JNull = TObject"
| "typeof h (JBool b) = TBoolean"
| "typeof h (JNum n) = TNumber"
| "typeof h (JInfinity negative) = TNumber"
| "typeof h (JStr s) = TString"
| "typeof h (JArr xs) = TObject"
| "typeof h (JObj kvs) = TObject"
| "typeof h (JBuiltin b) = (if builtin_object h b then TObject else TFunction)"

fun isArray :: "host \<Rightarrow> jsval \<Rightarrow> bool" where
  "isArray h (JArr xs) = True"
| "isArray h (JBuiltin b) = builtin_array h b"
| "isArray h v = False"

text \<open>
  The own index properties of an array are named by canonical numerals: all digits,
  without a leading zero, and below the length.
\<close>

definition is_index :: "jsstring \<Rightarrow> nat \<Rightarrow> bool" where
  "is_index p n = (test_digits p \<and> (p = [48] \<or> hd p \<noteq> 48) \<and> parseInt p < n)"

text \<open>
  \<^verbatim>\<open>part in current\<close>: whether the object or its prototype chain has the property;
  a TypeError when the right operand is not an object.
\<close>

fun in_op :: "host \<Rightarrow> jsstring \<Rightarrow> jsval \<Rightarrow> js_error + bool" where
  "in_op h p (JObj kvs) = Inr (map_of kvs p \<noteq> None \<or> object_inherited h p \<noteq> None)"
| "in_op h p (JArr xs) =
     Inr (is_index p (length xs) \<or> p = js ''length'' \<or> array_inherited h p \<noteq> None)"
| "in_op h p (JBuiltin b) = Inr (builtin_props h b p \<noteq> None)"
| "in_op h p v = Inl TypeError"

text \<open>
  \<^verbatim>\<open>current[part]\<close> with a string: an own property shadows an inherited one, a
  missing property reads as undefined, and a read on null or undefined is a TypeError.
  A read on a boolean, number or string would go through the wrapper prototypes of the
  host; the source guards every read by \<^verbatim>\<open>typeof current === 'object'\<close>, so these
  reads are left out of the model and answer \<open>NotModelled\<close>.
\<close>

fun get_prop :: "host \<Rightarrow> jsval \<Rightarrow> jsstring \<Rightarrow> js_error + jsval" where
  "get_prop h (JObj kvs) p =
     Inr (case map_of kvs p of
            Some v \<Rightarrow> v
          | None \<Rightarrow> (case object_inherited h p of Some v \<Rightarrow> v | None \<Rightarrow> JUndefined))"
| "get_prop h (JArr xs) p =
     Inr (if is_index p (length xs) then xs ! parseInt p
          else if p = js ''length'' then JNum (real (length xs))
          else (case array_inherited h p of Some v \<Rightarrow> v | None \<Rightarrow> JUndefined))"
| "get_prop h (JBuiltin b) p =
     Inr (case builtin_props h b p of Some v \<Rightarrow> v | None \<Rightarrow> JUndefined)"
| "get_prop h JNull p = Inl TypeError"
| "get_prop h JUndefined p = Inl TypeError"
| "get_prop h v p = Inl NotModelled"

text \<open>
  \<^verbatim>\<open>current[parseInt(part)]\<close>, a read with a number: the element at that index, or
  undefined past the end. The source guards it by \<^verbatim>\<open>Array.isArray(current)\<close>; the
  only host value that is an array is the empty \<^verbatim>\<open>Array.prototype\<close>.
\<close>

fun get_index :: "host \<Rightarrow> jsval \<Rightarrow> nat \<Rightarrow> js_error + jsval" where
  "get_index h (JArr xs) n = Inr (if n < length xs then xs ! n else JUndefined)"
| "get_index h (JBuiltin b) n = (if builtin_array h b then Inr JUndefined else Inl NotModelled)"
| "get_index h JNull n = Inl TypeError"
| "get_index h JUndefined n = Inl TypeError"
| "get_index h v n = Inl NotModelled"

subsection \<open>extractPath (lines 125 to 143)\<close>

text \<open>
  The loop over the tokens, with \<open>current\<close> as its state. Each \<^verbatim>\<open>return undefined\<close>
  of the source ends the walk with \<open>Inr JUndefined\<close>; an exception of the host
  operations would end it with \<open>Inl\<close>.
\<close>

fun walk :: "host \<Rightarrow> jsval \<Rightarrow> jsstring list \<Rightarrow> js_error + jsval" where
  "walk h current [] = Inr current"
| "walk h current (part # parts) =
     (if eq_null current then Inr JUndefined
      else if isArray h current \<and> test_digits part then
        (case get_index h current (parseInt part) of
           Inl e \<Rightarrow> Inl e
         | Inr v \<Rightarrow> walk h v parts)
      else if typeof h current = TObject then
        (case in_op h part current of
           Inl e \<Rightarrow> Inl e
         | Inr True \<Rightarrow>
             (case get_prop h current part of
                Inl e \<Rightarrow> Inl e
              | Inr v \<Rightarrow> walk h v parts)
         | Inr False \<Rightarrow> Inr JUndefined)
      else Inr JUndefined)"

definition extractPath :: "host \<Rightarrow> jsval \<Rightarrow> jsstring \<Rightarrow> js_error + jsval" where
  "extractPath h obj path = walk h obj (path_parts path)"

text \<open>The values that have no parts: booleans, numbers and strings.\<close>

fun is_scalar :: "jsval \<Rightarrow> bool" where
  "is_scalar (JBool b) = True"
| "is_scalar (JNum n) = True"
| "is_scalar (JInfinity negative) = True"
| "is_scalar (JStr s) = True"
| "is_scalar v = False"

text \<open>
  The values that \<^verbatim>\<open>JSON.parse\<close> can return, and the values located inside a document: the document
  itself, the elements of its arrays and the members of its objects, at any depth.
\<close>

fun is_json :: "jsval \<Rightarrow> bool" where
  "is_json JNull = True"
| "is_json (JBool b) = True"
| "is_json (JNum n) = True"
| "is_json (JInfinity negative) = True"
| "is_json (JStr s) = True"
| "is_json (JArr xs) = (\<forall>x \<in> set xs. is_json x)"
| "is_json (JObj kvs) = (distinct (map fst kvs) \<and> (\<forall>x \<in> set (map snd kvs). is_json x))"
| "is_json JUndefined = False"
| "is_json (JBuiltin b) = False"

inductive subvalue :: "jsval \<Rightarrow> jsval \<Rightarrow> bool" where
  here: "subvalue v v"
| element: "x \<in> set xs \<Longrightarrow> subvalue v x \<Longrightarrow> subvalue v (JArr xs)"
| member: "(k, x) \<in> set kvs \<Longrightarrow> subvalue v x \<Longrightarrow> subvalue v (JObj kvs)"

text \<open>
  A walk all of whose steps stay inside the document: wherever a token is not an own
  property of the current value (a member of the object, an index or the length of the
  array), it does not name a property that the value inherits from the host either, so
  that no step resolves through the prototype chain.
\<close>

fun own_steps :: "host \<Rightarrow> jsval \<Rightarrow> jsstring list \<Rightarrow> bool" where
  "own_steps h current [] = True"
| "own_steps h (JObj kvs) (part # parts) =
     (case map_of kvs part of
        Some v \<Rightarrow> own_steps h v parts
      | None \<Rightarrow> object_inherited h part = None)"
| "own_steps h (JArr xs) (part # parts) =
     (if test_digits part then
        (if parseInt part < length xs then own_steps h (xs ! parseInt part) parts else True)
      else if part = js ''length'' then True
      else array_inherited h part = None)"
| "own_steps h current (part # parts) = True"

text \<open>
  What a walk over own properties can return: undefined, a value located in the document,
  or the length of an array located in the document.
\<close>

definition located :: "jsval \<Rightarrow> jsval \<Rightarrow> bool" where
  "located obj v =
     (v = JUndefined \<or> subvalue v obj \<or> (\<exists>xs. subvalue (JArr xs) obj \<and> v = JNum (real (length xs))))"

subsection \<open>safeParse (lines 28 to 62)\<close>

text \<open>
  \<^verbatim>\<open>err.message.match(/position (\d+)/)\<close>: the leftmost place where the word
  \<^verbatim>\<open>position\<close>, a space and at least one digit stand; the capture is the longest run
  of digits there. \<open>None\<close> is the \<^verbatim>\<open>null\<close> of a failed match.
\<close>

fun match_position :: "jsstring \<Rightarrow> jsstring option" where
  "match_position [] = None"
| "match_position (c # cs) =
     (if prefix (js ''position '') (c # cs)
         \<and> takeWhile is_digit (drop (length (js ''position '')) (c # cs)) \<noteq> []
      then Some (takeWhile is_digit (drop (length (js ''position '')) (c # cs)))
      else match_position cs)"

text \<open>
  The \<^verbatim>\<open>for\<close> loop of lines 36 to 45, with the loop variables \<open>i\<close> and \<open>chars\<close>
  as arguments; the result is the pair of \<open>line\<close> and \<open>col\<close> after the loop. Leaving
  the loop at its end keeps the initial values \<^verbatim>\<open>line = 1, col = 1\<close>. The column
  is a difference of numbers and is kept as an integer.
\<close>

function locate :: "jsstring list \<Rightarrow> nat \<Rightarrow> nat \<Rightarrow> nat \<Rightarrow> nat \<times> int" where
  "locate lines position i chars =
     (if i < length lines then
        (if chars + length (lines ! i) \<ge> position
         then (i + 1, int position - int chars + 1)
         else locate lines position (i + 1) (chars + length (lines ! i) + 1))
      else (1, 1))"
  by pat_completeness auto
termination
  by (relation "measure (\<lambda>(lines, position, i, chars). length lines - i)") auto

declare locate.simps [simp del]

text \<open>\<^verbatim>\<open>String.prototype.repeat\<close>: a RangeError on a negative count.\<close>

definition repeat :: "jsstring \<Rightarrow> int \<Rightarrow> js_error + jsstring" where
  "repeat s count = (if count < 0 then Inl RangeError else Inr (concat (replicate (nat count) s)))"

text \<open>
  \<^verbatim>\<open>message.split('JSON at position')[0]\<close>: the part of the message before the
  first occurrence of the separator, the whole message when it does not occur.
\<close>

fun before_first :: "jsstring \<Rightarrow> jsstring \<Rightarrow> jsstring" where
  "before_first sep [] = []"
| "before_first sep (c # cs) = (if prefix sep (c # cs) then [] else c # before_first sep cs)"

text \<open>A natural number in a template literal: its decimal digits.\<close>

fun dec :: "nat \<Rightarrow> jsstring" where
  "dec n = (if n < 10 then [of_nat (48 + n)] else dec (n div 10) @ [of_nat (48 + n mod 10)])"

declare dec.simps [simp del]

text \<open>
  The message of the error thrown at lines 50 to 58. The lamp before "Common fixes" is
  one code point outside the basic plane, two code units.
\<close>

definition diagnostic :: "jsstring \<Rightarrow> nat \<Rightarrow> jsstring \<Rightarrow> jsstring \<Rightarrow> jsstring" where
  "diagnostic message line errorLine pointer =
     before_first (js ''JSON at position'') message @ [newline]
     @ js ''   Line '' @ dec line @ js '': '' @ errorLine @ [newline]
     @ js ''            '' @ pointer @ [newline, newline]
     @ [0xD83D, 0xDCA1] @ js '' Common fixes:'' @ [newline]
     @ js ''   - Check for trailing commas'' @ [newline]
     @ js ''   - Ensure quotes around keys and string values'' @ [newline]
     @ js ''   - Verify brackets and braces are balanced''"

text \<open>
  \<^verbatim>\<open>JSON.parse\<close> belongs to the host and is a parameter: \<open>Inr\<close> the parsed value,
  \<open>Inl\<close> the message of the SyntaxError it throws. \<open>safeParse\<close> returns the value, or
  throws: \<open>Inl\<close> with the diagnostic as a new \<open>Error\<close> when the message holds a
  position, with the SyntaxError itself when it does not.
\<close>

definition safeParse :: "(jsstring \<Rightarrow> jsstring + jsval) \<Rightarrow> jsstring \<Rightarrow> js_error + jsval" where
  "safeParse JSON_parse str =
     (case JSON_parse str of
        Inr v \<Rightarrow> Inr v
      | Inl message \<Rightarrow>
          (let lines = split_on (\<lambda>c. c = newline) str in
           case match_position message of
             Some digits \<Rightarrow>
               (let position = parseInt digits;
                    (line, col) = locate lines position 0 0;
                    errorLine = (if line - 1 < length lines then lines ! (line - 1) else [])
                in case repeat (js '' '') (col - 1) of
                     Inl e \<Rightarrow> Inl e
                   | Inr spaces \<Rightarrow>
                       Inl (Error (diagnostic message line errorLine (spaces @ js ''^''))))
           | None \<Rightarrow> Inl (SyntaxError message)))"

text \<open>
  The wording of the specification, for comparison with the loop. Counting by hand in
  the text up to an offset: the line is one more than the number of newlines before the
  offset, the column one more than the number of characters between the last of these
  newlines and the offset.
\<close>

definition manual_line :: "jsstring \<Rightarrow> nat \<Rightarrow> nat" where
  "manual_line text ofs = Suc (length (filter (\<lambda>c. c = newline) (take ofs text)))"

definition manual_col :: "jsstring \<Rightarrow> nat \<Rightarrow> nat" where
  "manual_col text ofs = Suc (length (takeWhile (\<lambda>c. c \<noteq> newline) (rev (take ofs text))))"

text \<open>
  The characters before line \<open>i\<close>: the sum, over the lines before it, of the line's
  length plus one for its newline.
\<close>

definition chars_before :: "jsstring list \<Rightarrow> nat \<Rightarrow> nat" where
  "chars_before lines i = sum_list (map (\<lambda>l. length l + 1) (take i lines))"

text \<open>The loop as a recursion over the lines that remain, and the text of a list of lines.\<close>

fun scan :: "jsstring list \<Rightarrow> nat \<Rightarrow> nat \<Rightarrow> nat \<Rightarrow> nat \<times> int" where
  "scan [] position i chars = (1, 1)"
| "scan (l # ls) position i chars =
     (if chars + length l \<ge> position
      then (i + 1, int position - int chars + 1)
      else scan ls position (i + 1) (chars + length l + 1))"

fun join_lines :: "jsstring list \<Rightarrow> jsstring" where
  "join_lines [] = []"
| "join_lines [l] = l"
| "join_lines (l # m # ls) = l @ newline # join_lines (m # ls)"

text \<open>
  A host for evaluating the extractor on concrete inputs. It has the properties that
  every edition of the language since ECMAScript 5 gives to \<^verbatim>\<open>Object.prototype\<close>
  and \<^verbatim>\<open>Array.prototype\<close>, and the \<^verbatim>\<open>__proto__\<close> accessor that Node.js has;
  later editions only add names. Each built-in is named by the expression that denotes it.
\<close>

definition object_prototype_names :: "string list" where
  "object_prototype_names =
     [''hasOwnProperty'', ''isPrototypeOf'', ''propertyIsEnumerable'',
      ''toLocaleString'', ''toString'', ''valueOf'']"

definition array_prototype_names :: "string list" where
  "array_prototype_names =
     [''concat'', ''every'', ''filter'', ''forEach'', ''indexOf'', ''join'',
      ''lastIndexOf'', ''map'', ''pop'', ''push'', ''reduce'', ''reduceRight'',
      ''reverse'', ''shift'', ''slice'', ''some'', ''sort'', ''splice'',
      ''toLocaleString'', ''toString'', ''unshift'']"

definition methods :: "string \<Rightarrow> string list \<Rightarrow> (jsstring \<times> jsval) list" where
  "methods proto names = map (\<lambda>n. (js n, JBuiltin (proto @ ''.'' @ n))) names"

definition es5_object_props :: "(jsstring \<times> jsval) list" where
  "es5_object_props =
     (js ''constructor'', JBuiltin ''Object'')
     # methods ''Object.prototype'' object_prototype_names"

definition es5_array_props :: "(jsstring \<times> jsval) list" where
  "es5_array_props =
     (js ''constructor'', JBuiltin ''Array'')
     # methods ''Array.prototype'' array_prototype_names @ es5_object_props"

definition es5_host :: host where
  "es5_host =
     \<lparr> object_inherited = map_of ((js ''__proto__'', JBuiltin ''Object.prototype'') # es5_object_props),
       array_inherited = map_of ((js ''__proto__'', JBuiltin ''Array.prototype'') # es5_array_props),
       builtin_object = (\<lambda>b. b = ''Object.prototype'' \<or> b = ''Array.prototype''),
       builtin_array = (\<lambda>b. b = ''Array.prototype''),
       builtin_props = (\<lambda>b.
         if b = ''Object.prototype'' then map_of ((js ''__proto__'', JNull) # es5_object_props)
         else if b = ''Array.prototype'' then
           map_of ((js ''__proto__'', JBuiltin ''Object.prototype'')
                   # (js ''length'', JNum 0) # es5_array_props)
         else Map.empty) \<rparr>"

subsection \<open>The host's JSON functions\<close>

text \<open>
  Modelled from the spec: \<^verbatim>\<open>JSON.parse\<close> and \<^verbatim>\<open>JSON.stringify\<close>, which the
  program calls (lines 30 and 252) and which belong to the host. The specification refers
  to them as the standard JSON parser and the standard indented serialization; the model
  follows the standard grammar (numbers, strings with the standard escapes, true, false,
  null, arrays, objects) and the language's definition of the two functions.

  Arithmetic on doubles stays a parameter of the host: \<open>to_double\<close> rounds the value of
  a number literal inside the range of finite doubles, \<open>number_to_string\<close> prints a
  finite number, and \<open>syntax_error\<close> is the message of the SyntaxError for a rejected
  text. What the language fixes for every host is written out: a literal whose value
  reaches \<open>2^1024 - 2^970\<close>, half a unit beyond the largest double, reads as an
  infinity.
\<close>

record json_host =
  to_double :: "real \<Rightarrow> real"
  number_to_string :: "real \<Rightarrow> jsstring"
  syntax_error :: "jsstring \<Rightarrow> jsstring"

definition overflow_bound :: real where
  "overflow_bound = 2 ^ 1024 - 2 ^ 970"

definition to_number :: "json_host \<Rightarrow> real \<Rightarrow> jsval" where
  "to_number jh m = (if overflow_bound \<le> \<bar>m\<bar> then JInfinity (m < 0) else JNum (to_double jh m))"

text \<open>White space between the tokens: space, tab, line feed, carriage return.\<close>

definition is_ws :: "jschar \<Rightarrow> bool" where
  "is_ws c = (c = 32 \<or> c = 9 \<or> c = 10 \<or> c = 13)"

definition skip_ws :: "jsstring \<Rightarrow> jsstring" where
  "skip_ws s = dropWhile is_ws s"

text \<open>
  The value of a number literal with integer digits \<open>ip\<close>, fraction digits \<open>fp\<close> and
  exponent \<open>e\<close>, as an exact real.
\<close>

definition scale10 :: "real \<Rightarrow> int \<Rightarrow> real" where
  "scale10 x e = (if 0 \<le> e then x * 10 ^ nat e else x / 10 ^ nat (- e))"

definition number_value :: "bool \<Rightarrow> jsstring \<Rightarrow> jsstring \<Rightarrow> int \<Rightarrow> real" where
  "number_value negative ip fp e =
     (if negative then - 1 else 1)
     * scale10 (real (parseInt ip) + real (parseInt fp) / 10 ^ length fp) e"

text \<open>
  Modelled from the spec: reading a number token, the longest prefix of the input of the
  shape minus sign, integer part without a leading zero, fraction, exponent.
\<close>

fun lex_int :: "jsstring \<Rightarrow> (jsstring \<times> jsstring) option" where
  "lex_int [] = None"
| "lex_int (c # cs) =
     (if c = 48 then Some ([c], cs)
      else if is_digit c then Some (c # takeWhile is_digit cs, dropWhile is_digit cs)
      else None)"

fun lex_frac :: "jsstring \<Rightarrow> (jsstring \<times> jsstring) option" where
  "lex_frac [] = Some ([], [])"
| "lex_frac (c # cs) =
     (if c = 46 then
        (if takeWhile is_digit cs = [] then None
         else Some (takeWhile is_digit cs, dropWhile is_digit cs))
      else Some ([], c # cs))"

fun lex_sign :: "jsstring \<Rightarrow> bool \<times> jsstring" where
  "lex_sign [] = (False, [])"
| "lex_sign (c # cs) = (if c = 45 then (True, cs) else if c = 43 then (False, cs) else (False, c # cs))"

fun lex_exp :: "jsstring \<Rightarrow> (int \<times> jsstring) option" where
  "lex_exp [] = Some (0, [])"
| "lex_exp (c # cs) =
     (if c = 101 \<or> c = 69 then
        (case lex_sign cs of (negative, ds) \<Rightarrow>
           if takeWhile is_digit ds = [] then None
           else Some ((if negative then - int (parseInt (takeWhile is_digit ds))
                       else int (parseInt (takeWhile is_digit ds))),
                      dropWhile is_digit ds))
      else Some (0, c # cs))"

fun lex_minus :: "jsstring \<Rightarrow> bool \<times> jsstring" where
  "lex_minus [] = (False, [])"
| "lex_minus (c # cs) = (if c = 45 then (True, cs) else (False, c # cs))"

definition lex_number :: "jsstring \<Rightarrow> (real \<times> jsstring) option" where
  "lex_number s =
     (case lex_minus s of (negative, s1) \<Rightarrow>
        case lex_int s1 of None \<Rightarrow> None | Some (ip, s2) \<Rightarrow>
        case lex_frac s2 of None \<Rightarrow> None | Some (fp, s3) \<Rightarrow>
        case lex_exp s3 of None \<Rightarrow> None | Some (e, s4) \<Rightarrow>
          Some (number_value negative ip fp e, s4))"

text \<open>
  Modelled from the spec: reading a string token after its opening quote, up to the
  closing quote: the escapes of the grammar, four hexadecimal digits after
  \<^verbatim>\<open>\u\<close>, and no raw control character.
\<close>

definition unescape :: "jschar \<Rightarrow> jschar option" where
  "unescape e =
     (if e = 34 then Some 34 else if e = 92 then Some 92 else if e = 47 then Some 47
      else if e = 98 then Some 8 else if e = 102 then Some 12 else if e = 110 then Some 10
      else if e = 114 then Some 13 else if e = 116 then Some 9 else None)"

definition hex_value :: "jschar \<Rightarrow> nat option" where
  "hex_value c =
     (if 48 \<le> c \<and> c \<le> 57 then Some (unat c - 48)
      else if 97 \<le> c \<and> c \<le> 102 then Some (unat c - 87)
      else if 65 \<le> c \<and> c \<le> 70 then Some (unat c - 55)
      else None)"

definition hex4_value :: "jschar \<Rightarrow> jschar \<Rightarrow> jschar \<Rightarrow> jschar \<Rightarrow> jschar option" where
  "hex4_value a b c d =
     (case (hex_value a, hex_value b, hex_value c, hex_value d) of
        (Some x, Some y, Some z, Some w) \<Rightarrow> Some (of_nat (4096 * x + 256 * y + 16 * z + w))
      | _ \<Rightarrow> None)"

fun parse_chars :: "jsstring \<Rightarrow> (jsstring \<times> jsstring) option" where
  "parse_chars [] = None"
| "parse_chars (c # cs) =
     (if c = 34 then Some ([], cs)
      else if c = 92 then
        (case cs of
           [] \<Rightarrow> None
         | e # r \<Rightarrow>
             if e = 117 then
               (case r of
                  a # b # c' # d # r' \<Rightarrow>
                    (case hex4_value a b c' d of
                       None \<Rightarrow> None
                     | Some u \<Rightarrow> map_option (\<lambda>(s, rest). (u # s, rest)) (parse_chars r'))
                | _ \<Rightarrow> None)
             else
               (case unescape e of
                  None \<Rightarrow> None
                | Some u \<Rightarrow> map_option (\<lambda>(s, rest). (u # s, rest)) (parse_chars r)))
      else if c < 32 then None
      else map_option (\<lambda>(s, rest). (c # s, rest)) (parse_chars cs))"


text \<open>
  Modelled from the spec: the members of an object are created in the order of the text;
  a key that is already there keeps its place and takes the new value. The list of an
  object is in the host's property order: the keys that are array indices first, in
  ascending numeric order, then the other keys in the order of creation. (A new index
  key never equals an index key already present in number, both being canonical
  numerals.)
\<close>

definition is_array_index :: "jsstring \<Rightarrow> bool" where
  "is_array_index k = (test_digits k \<and> (k = [48] \<or> hd k \<noteq> 48) \<and> parseInt k < 4294967295)"

fun insert_index :: "jsstring \<Rightarrow> jsval \<Rightarrow> (jsstring \<times> jsval) list \<Rightarrow> (jsstring \<times> jsval) list" where
  "insert_index k v [] = [(k, v)]"
| "insert_index k v ((k', v') # kvs) =
     (if is_array_index k' \<and> parseInt k' \<le> parseInt k then (k', v') # insert_index k v kvs
      else (k, v) # (k', v') # kvs)"

fun replace_value :: "jsstring \<Rightarrow> jsval \<Rightarrow> (jsstring \<times> jsval) list \<Rightarrow> (jsstring \<times> jsval) list" where
  "replace_value k v [] = []"
| "replace_value k v ((k', v') # kvs) =
     (if k' = k then (k', v) # kvs else (k', v') # replace_value k v kvs)"

definition put_member :: "(jsstring \<times> jsval) list \<Rightarrow> jsstring \<times> jsval \<Rightarrow> (jsstring \<times> jsval) list" where
  "put_member kvs kv =
     (case kv of (k, v) \<Rightarrow>
        if map_of kvs k \<noteq> None then replace_value k v kvs
        else if is_array_index k then insert_index k v kvs
        else kvs @ [(k, v)])"

text \<open>
  Modelled from the spec: \<^verbatim>\<open>JSON.parse\<close> as a recursive descent over the text. The
  natural number is fuel for the recursion, one unit per nested call; the text's length
  is always enough (\<open>parse_text\<close>), which the completeness lemma below proves, so
  running out of fuel never rejects a valid text.
\<close>

definition literal :: "string \<Rightarrow> jsval \<Rightarrow> jsstring \<Rightarrow> (jsval \<times> jsstring) option" where
  "literal word v s = (if prefix (js word) s then Some (v, drop (length word) s) else None)"

fun parse_value :: "json_host \<Rightarrow> nat \<Rightarrow> jsstring \<Rightarrow> (jsval \<times> jsstring) option"
  and parse_elements :: "json_host \<Rightarrow> nat \<Rightarrow> jsstring \<Rightarrow> (jsval list \<times> jsstring) option"
  and parse_members :: "json_host \<Rightarrow> nat \<Rightarrow> jsstring \<Rightarrow> ((jsstring \<times> jsval) list \<times> jsstring) option"
where
  "parse_value jh 0 s = None"
| "parse_value jh (Suc n) [] = None"
| "parse_value jh (Suc n) (c # cs) =
     (if c = 110 then literal ''null'' JNull (c # cs)
      else if c = 116 then literal ''true'' (JBool True) (c # cs)
      else if c = 102 then literal ''false'' (JBool False) (c # cs)
      else if c = 34 then
        (case parse_chars cs of
           None \<Rightarrow> None
         | Some (s, rest) \<Rightarrow> Some (JStr s, rest))
      else if c = 91 then
        (case skip_ws cs of
           [] \<Rightarrow> None
         | d # rest \<Rightarrow>
             if d = 93 then Some (JArr [], rest)
             else (case parse_elements jh n cs of
                     None \<Rightarrow> None
                   | Some (vs, rest') \<Rightarrow> Some (JArr vs, rest')))
      else if c = 123 then
        (case skip_ws cs of
           [] \<Rightarrow> None
         | d # rest \<Rightarrow>
             if d = 125 then Some (JObj [], rest)
             else (case parse_members jh n cs of
                     None \<Rightarrow> None
                   | Some (kvs, rest') \<Rightarrow> Some (JObj (foldl put_member [] kvs), rest')))
      else if c = 45 \<or> is_digit c then
        (case lex_number (c # cs) of
           None \<Rightarrow> None
         | Some (m, rest) \<Rightarrow> Some (to_number jh m, rest))
      else None)"
| "parse_elements jh 0 s = None"
| "parse_elements jh (Suc n) s =
     (case parse_value jh n (skip_ws s) of
        None \<Rightarrow> None
      | Some (v, r) \<Rightarrow>
          (case skip_ws r of
             [] \<Rightarrow> None
           | d # r' \<Rightarrow>
               if d = 44 then
                 (case parse_elements jh n r' of
                    None \<Rightarrow> None
                  | Some (vs, rest) \<Rightarrow> Some (v # vs, rest))
               else if d = 93 then Some ([v], r')
               else None))"
| "parse_members jh 0 s = None"
| "parse_members jh (Suc n) s =
     (case skip_ws s of
        [] \<Rightarrow> None
      | q # s1 \<Rightarrow>
          if q \<noteq> 34 then None
          else (case parse_chars s1 of
                  None \<Rightarrow> None
                | Some (k, s2) \<Rightarrow>
                    (case skip_ws s2 of
                       [] \<Rightarrow> None
                     | colon # s3 \<Rightarrow>
                         if colon \<noteq> 58 then None
                         else (case parse_value jh n (skip_ws s3) of
                                 None \<Rightarrow> None
                               | Some (v, r) \<Rightarrow>
                                   (case skip_ws r of
                                      [] \<Rightarrow> None
                                    | d # r' \<Rightarrow>
                                        if d = 44 then
                                          (case parse_members jh n r' of
                                             None \<Rightarrow> None
                                           | Some (kvs, rest) \<Rightarrow> Some ((k, v) # kvs, rest))
                                        else if d = 125 then Some ([(k, v)], r')
                                        else None)))))"

definition parse_text :: "json_host \<Rightarrow> jsstring \<Rightarrow> jsval option" where
  "parse_text jh text =
     (case parse_value jh (length text) (skip_ws text) of
        None \<Rightarrow> None
      | Some (v, rest) \<Rightarrow> if skip_ws rest = [] then Some v else None)"

definition json_parse :: "json_host \<Rightarrow> jsstring \<Rightarrow> jsstring + jsval" where
  "json_parse jh text =
     (case parse_text jh text of
        Some v \<Rightarrow> Inr v
      | None \<Rightarrow> Inl (syntax_error jh text))"

text \<open>
  Modelled from the spec: \<^verbatim>\<open>JSON.stringify(value, null, 2)\<close>. A string is quoted with
  the short escapes, \<^verbatim>\<open>\u\<close> and four lowercase hexadecimal digits for the other
  control characters and for a surrogate without its partner, everything else as it is.
  A number that is not finite prints as \<^verbatim>\<open>null\<close>; undefined and functions have no
  text (\<open>None\<close>), print as \<^verbatim>\<open>null\<close> inside an array and are left out of an
  object. Arrays and objects put each entry on a line of its own, indented by two spaces
  per level, and print as \<^verbatim>\<open>[]\<close> and \<^verbatim>\<open>{}\<close> when empty.
\<close>

definition hex_digit :: "nat \<Rightarrow> jschar" where
  "hex_digit n = (if n < 10 then of_nat (48 + n) else of_nat (87 + n))"

definition unicode_escape :: "jschar \<Rightarrow> jsstring" where
  "unicode_escape c =
     [92, 117, hex_digit (unat c div 4096), hex_digit (unat c div 256 mod 16),
      hex_digit (unat c div 16 mod 16), hex_digit (unat c mod 16)]"

definition is_high_surrogate :: "jschar \<Rightarrow> bool" where
  "is_high_surrogate c = (0xD800 \<le> c \<and> c \<le> 0xDBFF)"

definition is_low_surrogate :: "jschar \<Rightarrow> bool" where
  "is_low_surrogate c = (0xDC00 \<le> c \<and> c \<le> 0xDFFF)"

definition quote_unit :: "jschar \<Rightarrow> jsstring" where
  "quote_unit c =
     (if c = 8 then [92, 98] else if c = 9 then [92, 116] else if c = 10 then [92, 110]
      else if c = 12 then [92, 102] else if c = 13 then [92, 114]
      else if c = 34 then [92, 34] else if c = 92 then [92, 92]
      else if c < 32 \<or> is_high_surrogate c \<or> is_low_surrogate c then unicode_escape c
      else [c])"

fun quote_units :: "jsstring \<Rightarrow> jsstring" where
  "quote_units [] = []"
| "quote_units [c] = quote_unit c"
| "quote_units (c # d # cs) =
     (if is_high_surrogate c \<and> is_low_surrogate d then c # d # quote_units cs
      else quote_unit c @ quote_units (d # cs))"

definition quote :: "jsstring \<Rightarrow> jsstring" where
  "quote s = 34 # quote_units s @ [34]"

definition indentation :: "nat \<Rightarrow> jsstring" where
  "indentation level = replicate (2 * level) 32"

fun serialize :: "json_host \<Rightarrow> nat \<Rightarrow> jsval \<Rightarrow> jsstring option"
  and serialize_elements :: "json_host \<Rightarrow> nat \<Rightarrow> jsval list \<Rightarrow> jsstring list"
  and serialize_members :: "json_host \<Rightarrow> nat \<Rightarrow> (jsstring \<times> jsval) list \<Rightarrow> jsstring list"
where
  "serialize jh level JUndefined = None"
| "serialize jh level (JBuiltin b) = None"
| "serialize jh level JNull = Some (js ''null'')"
| "serialize jh level (JBool b) = Some (if b then js ''true'' else js ''false'')"
| "serialize jh level (JNum x) = Some (number_to_string jh x)"
| "serialize jh level (JInfinity negative) = Some (js ''null'')"
| "serialize jh level (JStr s) = Some (quote s)"
| "serialize jh level (JArr xs) =
     Some (case serialize_elements jh (Suc level) xs of
             [] \<Rightarrow> js ''[]''
           | e # es \<Rightarrow>
               [91, newline] @ indentation (Suc level)
               @ e @ concat (map (\<lambda>p. [44, newline] @ indentation (Suc level) @ p) es)
               @ [newline] @ indentation level @ [93])"
| "serialize jh level (JObj kvs) =
     Some (case serialize_members jh (Suc level) kvs of
             [] \<Rightarrow> js ''{}''
           | e # es \<Rightarrow>
               [123, newline] @ indentation (Suc level)
               @ e @ concat (map (\<lambda>p. [44, newline] @ indentation (Suc level) @ p) es)
               @ [newline] @ indentation level @ [125])"
| "serialize_elements jh level [] = []"
| "serialize_elements jh level (x # xs) =
     (case serialize jh level x of None \<Rightarrow> js ''null'' | Some t \<Rightarrow> t)
     # serialize_elements jh level xs"
| "serialize_members jh level [] = []"
| "serialize_members jh level ((k, v) # kvs) =
     (case serialize jh level v of
        None \<Rightarrow> serialize_members jh level kvs
      | Some t \<Rightarrow> (quote k @ [58, 32] @ t) # serialize_members jh level kvs)"

definition json_stringify :: "json_host \<Rightarrow> jsval \<Rightarrow> jsstring option" where
  "json_stringify jh v = serialize jh 0 v"

text \<open>
  A host for evaluating on concrete inputs whose numbers are small natural numbers:
  these are doubles, so rounding leaves them as they are, and they print in decimal.
\<close>

definition decimal_host :: json_host where
  "decimal_host = \<lparr> to_double = (\<lambda>x. x), number_to_string = (\<lambda>x. dec (nat \<lfloor>x\<rfloor>)),
                    syntax_error = (\<lambda>text. js ''Unexpected end of JSON input'') \<rparr>"



text \<open>
  Modelled from the spec: the standard JSON grammar, as relations between a text and the
  value it denotes, independent of the parser above. \<open>json_text jh text v\<close> says that
  \<open>text\<close> is syntactically valid JSON and that a standard-compliant parser returns
  \<open>v\<close> for it.
\<close>

definition int_text :: "jsstring \<Rightarrow> bool" where
  "int_text ip = (ip = [48] \<or> (test_digits ip \<and> hd ip \<noteq> 48))"

inductive frac_text :: "jsstring \<Rightarrow> jsstring \<Rightarrow> bool" where
  no_frac: "frac_text [] []"
| frac: "test_digits fp \<Longrightarrow> frac_text (46 # fp) fp"

inductive exp_text :: "jsstring \<Rightarrow> int \<Rightarrow> bool" where
  no_exp: "exp_text [] 0"
| exp_plain: "mark = 101 \<or> mark = 69 \<Longrightarrow> test_digits ds \<Longrightarrow>
    exp_text (mark # ds) (int (parseInt ds))"
| exp_plus: "mark = 101 \<or> mark = 69 \<Longrightarrow> test_digits ds \<Longrightarrow>
    exp_text (mark # 43 # ds) (int (parseInt ds))"
| exp_minus: "mark = 101 \<or> mark = 69 \<Longrightarrow> test_digits ds \<Longrightarrow>
    exp_text (mark # 45 # ds) (- int (parseInt ds))"

inductive number_text :: "jsstring \<Rightarrow> real \<Rightarrow> bool" where
  positive: "int_text ip \<Longrightarrow> frac_text ft fp \<Longrightarrow> exp_text et e \<Longrightarrow>
    number_text (ip @ ft @ et) (number_value False ip fp e)"
| negative: "int_text ip \<Longrightarrow> frac_text ft fp \<Longrightarrow> exp_text et e \<Longrightarrow>
    number_text (45 # ip @ ft @ et) (number_value True ip fp e)"

inductive string_text :: "jsstring \<Rightarrow> jsstring \<Rightarrow> bool" where
  no_chars: "string_text [] []"
| plain: "32 \<le> c \<Longrightarrow> c \<noteq> 34 \<Longrightarrow> c \<noteq> 92 \<Longrightarrow> string_text t s \<Longrightarrow>
    string_text (c # t) (c # s)"
| escape: "unescape e = Some u \<Longrightarrow> string_text t s \<Longrightarrow>
    string_text (92 # e # t) (u # s)"
| unicode: "hex4_value a b c d = Some u \<Longrightarrow> string_text t s \<Longrightarrow>
    string_text (92 # 117 # a # b # c # d # t) (u # s)"

definition ws_text :: "jsstring \<Rightarrow> bool" where
  "ws_text w = list_all is_ws w"

inductive value_text :: "json_host \<Rightarrow> jsstring \<Rightarrow> jsval \<Rightarrow> bool"
  and elements_text :: "json_host \<Rightarrow> jsstring \<Rightarrow> jsval list \<Rightarrow> bool"
  and members_text :: "json_host \<Rightarrow> jsstring \<Rightarrow> (jsstring \<times> jsval) list \<Rightarrow> bool"
  for jh :: json_host
where
  null: "value_text jh (js ''null'') JNull"
| true: "value_text jh (js ''true'') (JBool True)"
| false: "value_text jh (js ''false'') (JBool False)"
| number: "number_text s m \<Longrightarrow> value_text jh s (to_number jh m)"
| string: "string_text t s \<Longrightarrow> value_text jh (34 # t @ [34]) (JStr s)"
| empty_array: "ws_text w \<Longrightarrow> value_text jh (91 # w @ [93]) (JArr [])"
| array: "elements_text jh es vs \<Longrightarrow> value_text jh (91 # es @ [93]) (JArr vs)"
| empty_object: "ws_text w \<Longrightarrow> value_text jh (123 # w @ [125]) (JObj [])"
| object: "members_text jh ms kvs \<Longrightarrow>
    value_text jh (123 # ms @ [125]) (JObj (foldl put_member [] kvs))"
| last_element: "ws_text w1 \<Longrightarrow> value_text jh s v \<Longrightarrow> ws_text w2 \<Longrightarrow>
    elements_text jh (w1 @ s @ w2) [v]"
| more_elements: "ws_text w1 \<Longrightarrow> value_text jh s v \<Longrightarrow> ws_text w2 \<Longrightarrow>
    elements_text jh es vs \<Longrightarrow>
    elements_text jh (w1 @ s @ w2 @ 44 # es) (v # vs)"
| last_member: "ws_text w1 \<Longrightarrow> string_text t k \<Longrightarrow> ws_text w2 \<Longrightarrow> ws_text w3 \<Longrightarrow>
    value_text jh s v \<Longrightarrow> ws_text w4 \<Longrightarrow>
    members_text jh (w1 @ 34 # t @ 34 # w2 @ 58 # w3 @ s @ w4) [(k, v)]"
| more_members: "ws_text w1 \<Longrightarrow> string_text t k \<Longrightarrow> ws_text w2 \<Longrightarrow> ws_text w3 \<Longrightarrow>
    value_text jh s v \<Longrightarrow> ws_text w4 \<Longrightarrow> members_text jh ms kvs \<Longrightarrow>
    members_text jh (w1 @ 34 # t @ 34 # w2 @ 58 # w3 @ s @ w4 @ 44 # ms) ((k, v) # kvs)"

definition json_text :: "json_host \<Rightarrow> jsstring \<Rightarrow> jsval \<Rightarrow> bool" where
  "json_text jh text v =
     (\<exists>w1 s w2. ws_text w1 \<and> value_text jh s v \<and> ws_text w2 \<and> text = w1 @ s @ w2)"

text \<open>
  Line 252 of \<^verbatim>\<open>main\<close>: with color disabled the formatted text is
  \<^verbatim>\<open>JSON.stringify(data, null, 2)\<close>.
\<close>

definition format_no_color :: "json_host \<Rightarrow> jsval \<Rightarrow> jsstring option" where
  "format_no_color jh data = json_stringify jh data"

text \<open>Auxiliary notions of the proofs about the parser.\<close>

definition stops_digits :: "jsstring \<Rightarrow> bool" where
  "stops_digits tail = (case tail of [] \<Rightarrow> True | c # cs \<Rightarrow> \<not> is_digit c)"

definition stops_number :: "jsstring \<Rightarrow> bool" where
  "stops_number tail =
     (case tail of [] \<Rightarrow> True | c # cs \<Rightarrow> \<not> is_digit c \<and> c \<noteq> 46 \<and> c \<noteq> 101 \<and> c \<noteq> 69)"

definition starts_value :: "jschar \<Rightarrow> bool" where
  "starts_value c = (c = 110 \<or> c = 116 \<or> c = 102 \<or> c = 34 \<or> c = 91 \<or> c = 123 \<or> c = 45 \<or> is_digit c)"

definition sound_at :: "json_host \<Rightarrow> nat \<Rightarrow> bool" where
  "sound_at jh n =
     ((\<forall>input v rest. parse_value jh n input = Some (v, rest) \<longrightarrow>
         (\<exists>s. value_text jh s v \<and> input = s @ rest))
    \<and> (\<forall>input vs rest. parse_elements jh n input = Some (vs, rest) \<longrightarrow>
         (\<exists>es. elements_text jh es vs \<and> input = es @ 93 # rest))
    \<and> (\<forall>input kvs rest. parse_members jh n input = Some (kvs, rest) \<longrightarrow>
         (\<exists>ms. members_text jh ms kvs \<and> input = ms @ 125 # rest)))"

section \<open>Tokenization\<close>

lemma split_on_not_Nil: "split_on sep s \<noteq> []"
  by (induction s) (auto split: list.splits)

lemma split_on_runs_not_Nil: "split_on_runs sep s \<noteq> []"
  by (induction sep s rule: split_on_runs.induct) (auto split: list.splits)

lemma parts_Cons_sep:
  "sep c \<Longrightarrow> filter (\<lambda>p. p \<noteq> []) (split_on sep (c # cs)) = filter (\<lambda>p. p \<noteq> []) (split_on sep cs)"
  by simp

lemma parts_dropWhile:
  "filter (\<lambda>p. p \<noteq> []) (split_on sep (dropWhile sep s)) = filter (\<lambda>p. p \<noteq> []) (split_on sep s)"
  by (induction s) auto

lemma split_on_eq_runs_nosep:
  "\<not> sep c \<Longrightarrow>
   filter (\<lambda>p. p \<noteq> []) (split_on sep cs) = filter (\<lambda>p. p \<noteq> []) (split_on_runs sep cs) \<Longrightarrow>
   hd (split_on sep cs) = hd (split_on_runs sep cs) \<Longrightarrow>
   filter (\<lambda>p. p \<noteq> []) (split_on sep (c # cs)) = filter (\<lambda>p. p \<noteq> []) (split_on_runs sep (c # cs))"
  using split_on_not_Nil [of sep cs] split_on_runs_not_Nil [of sep cs]
  by (cases "split_on sep cs"; cases "split_on_runs sep cs") (auto split: if_splits)

lemma hd_split_on: "hd (split_on sep s) = takeWhile (\<lambda>c. \<not> sep c) s"
  using split_on_not_Nil [of sep]
  by (induction s) (auto split: list.splits)

lemma hd_split_on_runs: "hd (split_on_runs sep s) = takeWhile (\<lambda>c. \<not> sep c) s"
  using split_on_runs_not_Nil [of sep]
  by (induction sep s rule: split_on_runs.induct) (auto split: list.splits)

lemma parts_runs:
  "filter (\<lambda>p. p \<noteq> []) (split_on sep s) = filter (\<lambda>p. p \<noteq> []) (split_on_runs sep s)"
proof (induction sep s rule: split_on_runs.induct)
  case (1 sep)
  show ?case by simp
next
  case (2 sep c cs)
  show ?case
  proof (cases "sep c")
    case True
    with 2 have "filter (\<lambda>p. p \<noteq> []) (split_on sep (dropWhile sep cs))
        = filter (\<lambda>p. p \<noteq> []) (split_on_runs sep (dropWhile sep cs))"
      by simp
    with True show ?thesis
      by (simp add: parts_dropWhile)
  next
    case False
    with 2 have "filter (\<lambda>p. p \<noteq> []) (split_on sep cs) = filter (\<lambda>p. p \<noteq> []) (split_on_runs sep cs)"
      by simp
    with False show ?thesis
      by (intro split_on_eq_runs_nosep) (simp_all add: hd_split_on hd_split_on_runs)
  qed
qed

lemma concat_split_on: "concat (split_on sep s) = filter (\<lambda>c. \<not> sep c) s"
  by (induction s) (auto split: list.splits)

lemma split_on_all_no_sep: "list_all (list_all (\<lambda>c. \<not> sep c)) (split_on sep s)"
  by (induction s) (auto split: list.splits)

lemma split_on_no_sep: "p \<in> set (split_on sep s) \<Longrightarrow> c \<in> set p \<Longrightarrow> \<not> sep c"
  using split_on_all_no_sep [of sep s] by (auto simp: list_all_iff)

lemma concat_filter_nonempty: "concat (filter (\<lambda>p. p \<noteq> []) xss) = concat xss"
  by (induction xss) auto

lemma path_parts_example:
  "path_parts (js ''data.items[0].price'') = [js ''data'', js ''items'', js ''0'', js ''price'']"
  by (simp add: path_parts_def js_def is_delim_def)

text \<open>
  C7. For every path string the tokens are the segments between single occurrences of
  a dot or a bracket, with the empty segments dropped, in the order of the path: no token
  is empty, no token contains a delimiter, and the tokens concatenated are the path
  without its delimiters. This is the same token sequence as splitting on runs of one or
  more delimiters and dropping empty segments, and the path
  \<^verbatim>\<open>data.items[0].price\<close> has the tokens \<^verbatim>\<open>data\<close>, \<^verbatim>\<open>items\<close>, \<^verbatim>\<open>0\<close>,
  \<^verbatim>\<open>price\<close>.
\<close>

theorem C7_tokenization:
  "path_parts path = spec_path_parts path
   \<and> list_all (\<lambda>p. p \<noteq> [] \<and> list_all (\<lambda>c. \<not> is_delim c) p) (path_parts path)
   \<and> concat (path_parts path) = filter (\<lambda>c. \<not> is_delim c) path
   \<and> path_parts (js ''data.items[0].price'') = [js ''data'', js ''items'', js ''0'', js ''price'']"
proof -
  have "path_parts path = spec_path_parts path"
    by (simp add: path_parts_def spec_path_parts_def parts_runs)
  moreover have "list_all (\<lambda>p. p \<noteq> [] \<and> list_all (\<lambda>c. \<not> is_delim c) p) (path_parts path)"
    by (auto simp: path_parts_def list_all_iff dest: split_on_no_sep)
  moreover have "concat (path_parts path) = filter (\<lambda>c. \<not> is_delim c) path"
    by (simp add: path_parts_def concat_filter_nonempty concat_split_on)
  ultimately show ?thesis
    using path_parts_example by simp
qed

theorem C7_tokenization_witness:
  "path_parts (js ''a..b[1]'') = spec_path_parts (js ''a..b[1]'')
   \<and> path_parts (js ''a..b[1]'') = [js ''a'', js ''b'', js ''1'']"
proof -
  have "path_parts (js ''a..b[1]'') = [js ''a'', js ''b'', js ''1'']"
    by (simp add: path_parts_def js_def is_delim_def)
  with C7_tokenization [of "js ''a..b[1]''"] show ?thesis
    by simp
qed

section \<open>The walk over the tokens\<close>

lemma walk_undefined: "walk h JUndefined parts = Inr JUndefined"
  by (cases parts) (simp_all add: eq_null_def)

lemma walk_eq_null: "eq_null current \<Longrightarrow> parts \<noteq> [] \<Longrightarrow> walk h current parts = Inr JUndefined"
  by (cases parts) simp_all

lemma walk_scalar: "is_scalar current \<Longrightarrow> parts \<noteq> [] \<Longrightarrow> walk h current parts = Inr JUndefined"
  by (cases parts; cases current) (simp_all add: eq_null_def)

lemma walk_JObj:
  "walk h (JObj kvs) (part # parts) =
     (case map_of kvs part of
        Some v \<Rightarrow> walk h v parts
      | None \<Rightarrow> (case object_inherited h part of
                   Some v \<Rightarrow> walk h v parts
                 | None \<Rightarrow> Inr JUndefined))"
  by (simp add: eq_null_def split: option.splits)

lemma walk_JArr:
  "walk h (JArr xs) (part # parts) =
     (if test_digits part then
        (if parseInt part < length xs then walk h (xs ! parseInt part) parts else Inr JUndefined)
      else if part = js ''length'' then walk h (JNum (real (length xs))) parts
      else (case array_inherited h part of
              Some v \<Rightarrow> walk h v parts
            | None \<Rightarrow> Inr JUndefined))"
  by (simp add: eq_null_def is_index_def walk_undefined split: option.splits)

lemma walk_JBuiltin:
  "walk h (JBuiltin b) (part # parts) =
     (if builtin_array h b \<and> test_digits part then Inr JUndefined
      else if builtin_object h b then
        (case builtin_props h b part of
           Some v \<Rightarrow> walk h v parts
         | None \<Rightarrow> Inr JUndefined)
      else Inr JUndefined)"
  by (simp add: eq_null_def walk_undefined split: option.splits)

declare walk.simps(2) [simp del]

lemma walk_total: "\<exists>v. walk h current parts = Inr v"
proof (induction parts arbitrary: current)
  case Nil
  show ?case by simp
next
  case (Cons part parts)
  show ?case
  proof (cases current)
    case (JArr xs)
    then show ?thesis using Cons.IH by (simp add: walk_JArr split: option.splits)
  next
    case (JObj kvs)
    then show ?thesis using Cons.IH by (simp add: walk_JObj split: option.splits)
  next
    case (JBuiltin b)
    then show ?thesis using Cons.IH by (simp add: walk_JBuiltin split: option.splits)
  qed (simp_all add: walk_scalar walk_eq_null eq_null_def)
qed

lemma walk_append:
  "walk h obj (before @ rest) = (case walk h obj before of Inl e \<Rightarrow> Inl e | Inr v \<Rightarrow> walk h v rest)"
proof (induction before arbitrary: obj)
  case Nil
  show ?case by simp
next
  case (Cons part parts)
  show ?case
  proof (cases obj)
    case (JArr xs)
    then show ?thesis using Cons.IH by (simp add: walk_JArr walk_undefined split: option.splits)
  next
    case (JObj kvs)
    then show ?thesis using Cons.IH by (simp add: walk_JObj walk_undefined split: option.splits)
  next
    case (JBuiltin b)
    then show ?thesis using Cons.IH by (simp add: walk_JBuiltin walk_undefined split: option.splits)
  qed (simp_all add: walk_scalar walk_undefined walk_eq_null eq_null_def)
qed

lemma path_parts_Nil: "(\<forall>c \<in> set path. is_delim c) \<Longrightarrow> path_parts path = []"
  unfolding path_parts_def by (induction path) auto

section \<open>Extraction\<close>

lemmas string_eval = js_def is_delim_def is_digit_def test_digits_def parseInt_def digit_value_def
  path_parts_def is_index_def

lemmas es5_eval = es5_host_def es5_object_props_def es5_array_props_def methods_def
  object_prototype_names_def array_prototype_names_def

lemma path_parts_single:
  "part \<noteq> [] \<Longrightarrow> \<forall>c \<in> set part. \<not> is_delim c \<Longrightarrow> path_parts part = [part]"
proof -
  have "\<forall>c \<in> set s. \<not> is_delim c \<Longrightarrow> split_on is_delim s = [s]" for s
    by (induction s) auto
  then show "part \<noteq> [] \<Longrightarrow> \<forall>c \<in> set part. \<not> is_delim c \<Longrightarrow> path_parts part = [part]"
    by (simp add: path_parts_def)
qed

lemma digit_not_delim: "is_digit c \<Longrightarrow> \<not> is_delim c"
  by (auto simp: is_digit_def is_delim_def)

lemma path_parts_digits: "test_digits part \<Longrightarrow> path_parts part = [part]"
  by (rule path_parts_single) (auto simp: test_digits_def list_all_iff digit_not_delim)

text \<open>
  The statement of C1 fails: the object with the single key \<^verbatim>\<open>"0"\<close> and the
  all-digit path \<^verbatim>\<open>0\<close> give the value of the key, not \<^verbatim>\<open>undefined\<close>.
\<close>

theorem C1_counterexample:
  "test_digits (js ''0'')
   \<and> extractPath es5_host (JObj [(js ''0'', JNum 5)]) (js ''0'') = Inr (JNum 5)"
  by (simp add: extractPath_def walk_JObj string_eval)

text \<open>
  C1, amended. The test \<^verbatim>\<open>Array.isArray(current)\<close> comes first in the index branch,
  so an all-digit token is an array index only when the current value is an array. When
  the current value is an object, the token is looked up as a key like any other token:
  if the object has the key, the walk continues in the key's value, and the one-token path
  made of that key extracts the value; if the object lacks the key and inherits no
  property of that name from the host, the result is \<^verbatim>\<open>undefined\<close>. On an array the
  token indexes the array, and an index past the end gives \<^verbatim>\<open>undefined\<close>.
\<close>

theorem C1_digit_token_on_mapping:
  assumes "test_digits part"
  shows "(map_of kvs part = Some v \<longrightarrow>
            walk h (JObj kvs) (part # parts) = walk h v parts
            \<and> extractPath h (JObj kvs) part = Inr v)
       \<and> (map_of kvs part = None \<and> object_inherited h part = None \<longrightarrow>
            walk h (JObj kvs) (part # parts) = Inr JUndefined)
       \<and> walk h (JArr xs) (part # parts) =
            (if parseInt part < length xs then walk h (xs ! parseInt part) parts
             else Inr JUndefined)"
  using assms by (simp add: walk_JObj walk_JArr extractPath_def path_parts_digits)

theorem C1_digit_token_on_mapping_witness:
  "test_digits (js ''0'')
   \<and> map_of [(js ''0'', JNum 5)] (js ''0'') = Some (JNum 5)
   \<and> extractPath es5_host (JObj [(js ''0'', JNum 5)]) (js ''0'') = Inr (JNum 5)
   \<and> walk es5_host (JArr [JNum 7]) [js ''0''] = Inr (JNum 7)"
proof -
  have d: "test_digits (js ''0'')"
    by (simp add: string_eval)
  have m: "map_of [(js ''0'', JNum 5)] (js ''0'') = Some (JNum 5)"
    by simp
  have p: "parseInt (js ''0'') = 0"
    by (simp add: string_eval)
  from C1_digit_token_on_mapping [OF d, of "[(js ''0'', JNum 5)]" "JNum 5" es5_host "[]" "[JNum 7]"] d m p
  show ?thesis by simp
qed

text \<open>
  The statement of C2 fails: on an array of three elements the token \<^verbatim>\<open>length\<close>, which
  is not made of digits, resolves to the number 3.
\<close>

theorem C2_counterexample:
  "\<not> test_digits (js ''length'')
   \<and> extractPath es5_host (JArr [JNum 10, JNum 20, JNum 30]) (js ''length'') = Inr (JNum 3)"
  by (simp add: extractPath_def walk_JArr string_eval)

text \<open>
  C2, amended. An array is an object for \<^verbatim>\<open>typeof\<close>, so a token that is not made of
  digits reaches the property branch. The token \<^verbatim>\<open>length\<close> resolves to the number of
  elements, which is the result when it is the last token and leads to \<^verbatim>\<open>undefined\<close>
  when tokens remain. Every other token that names nothing an array inherits gives
  \<^verbatim>\<open>undefined\<close>.
\<close>

theorem C2_property_token_on_sequence:
  assumes "\<not> test_digits part"
  shows "(part = js ''length'' \<longrightarrow>
            walk h (JArr xs) (part # parts) =
              (if parts = [] then Inr (JNum (real (length xs))) else Inr JUndefined))
       \<and> (part \<noteq> js ''length'' \<and> array_inherited h part = None \<longrightarrow>
            walk h (JArr xs) (part # parts) = Inr JUndefined)"
  using assms by (auto simp: walk_JArr walk_scalar)

theorem C2_property_token_on_sequence_witness:
  "\<not> test_digits (js ''length'')
   \<and> walk es5_host (JArr [JNum 10, JNum 20, JNum 30]) [js ''length''] = Inr (JNum 3)
   \<and> \<not> test_digits (js ''size'') \<and> js ''size'' \<noteq> js ''length''
   \<and> array_inherited es5_host (js ''size'') = None
   \<and> walk es5_host (JArr [JNum 10, JNum 20, JNum 30]) [js ''size''] = Inr JUndefined"
proof -
  have a: "\<not> test_digits (js ''length'')" and b: "\<not> test_digits (js ''size'')"
    by (simp_all add: string_eval)
  have c: "js ''size'' \<noteq> js ''length''"
    by (simp add: js_def)
  have d: "array_inherited es5_host (js ''size'') = None"
    by (simp add: es5_eval js_def)
  from C2_property_token_on_sequence [OF a, of es5_host "[JNum 10, JNum 20, JNum 30]" "[]"]
       C2_property_token_on_sequence [OF b, of es5_host "[JNum 10, JNum 20, JNum 30]" "[]"]
       a b c d
  show ?thesis by simp
qed

text \<open>
  C9. When the walk has reached, after any number of tokens, a value that is null or
  undefined, or a boolean, a number or a string, and at least one token remains, the
  result is \<^verbatim>\<open>undefined\<close> whatever the remaining tokens are. In particular the path
  \<^verbatim>\<open>a.b.c\<close> on the object with the single member \<^verbatim>\<open>"a": 1\<close> gives
  \<^verbatim>\<open>undefined\<close>, on every host.
\<close>

theorem C9_short_circuit:
  "(walk h obj before = Inr current \<and> (eq_null current \<or> is_scalar current) \<and> rest \<noteq> [] \<longrightarrow>
      walk h obj (before @ rest) = Inr JUndefined)
   \<and> extractPath h (JObj [(js ''a'', JNum 1)]) (js ''a.b.c'') = Inr JUndefined"
proof -
  have "path_parts (js ''a.b.c'') = [js ''a'', js ''b'', js ''c'']"
    by (simp add: string_eval)
  then have "extractPath h (JObj [(js ''a'', JNum 1)]) (js ''a.b.c'') = Inr JUndefined"
    by (simp add: extractPath_def walk_JObj walk_scalar)
  then show ?thesis
    by (auto simp: walk_append walk_eq_null walk_scalar)
qed

theorem C9_short_circuit_witness:
  "walk es5_host (JObj [(js ''a'', JNum 1)]) [js ''a''] = Inr (JNum 1)
   \<and> is_scalar (JNum 1)
   \<and> walk es5_host (JObj [(js ''a'', JNum 1)]) ([js ''a''] @ [js ''b'', js ''c'']) = Inr JUndefined"
proof -
  have w: "walk es5_host (JObj [(js ''a'', JNum 1)]) [js ''a''] = Inr (JNum 1)"
    by (simp add: walk_JObj)
  from C9_short_circuit [of es5_host "JObj [(js ''a'', JNum 1)]" "[js ''a'']" "JNum 1" "[js ''b'', js ''c'']"] w
  show ?thesis by simp
qed

text \<open>
  C10. A path without any character other than dots and brackets, the empty path
  included, has no tokens, and extraction returns the value it was given.
\<close>

theorem C10_delimiter_path_identity:
  "(\<forall>c \<in> set path. is_delim c) \<Longrightarrow> extractPath h v path = Inr v"
  by (simp add: extractPath_def path_parts_Nil)

theorem C10_delimiter_path_identity_witness:
  "list_all is_delim (js ''.[]..'')
   \<and> extractPath es5_host (JObj [(js ''a'', JNum 1)]) (js ''.[]..'') = Inr (JObj [(js ''a'', JNum 1)])
   \<and> extractPath es5_host JNull [] = Inr JNull"
proof -
  have d: "\<forall>c \<in> set (js ''.[]..''). is_delim c"
    by (simp add: js_def is_delim_def)
  from C10_delimiter_path_identity [OF d, of es5_host "JObj [(js ''a'', JNum 1)]"]
       C10_delimiter_path_identity [of "[]" es5_host JNull] d
  show ?thesis by (simp add: list_all_iff)
qed


section \<open>The range of extraction\<close>

lemma subvalue_element: "subvalue (JArr xs) obj \<Longrightarrow> x \<in> set xs \<Longrightarrow> subvalue x obj"
  by (induction "JArr xs" obj rule: subvalue.induct) (auto intro: subvalue.intros)

lemma subvalue_member: "subvalue (JObj kvs) obj \<Longrightarrow> (k, x) \<in> set kvs \<Longrightarrow> subvalue x obj"
  by (induction "JObj kvs" obj rule: subvalue.induct) (auto intro: subvalue.intros)

inductive_cases subvalue_JArrE: "subvalue v (JArr xs)"
inductive_cases subvalue_JObjE: "subvalue v (JObj kvs)"
inductive_cases subvalue_JNumE: "subvalue v (JNum n)"

lemma walk_located:
  assumes "own_steps h current parts"
    and "is_json current" and "subvalue current obj"
  shows "\<exists>v. walk h current parts = Inr v \<and> located obj v"
  using assms
proof (induction parts arbitrary: current)
  case Nil
  then show ?case by (simp add: located_def)
next
  case (Cons part parts)
  show ?case
  proof (cases current)
    case (JArr xs)
    show ?thesis
    proof (cases "test_digits part")
      case True
      show ?thesis
      proof (cases "parseInt part < length xs")
        case inside: True
        then have el: "xs ! parseInt part \<in> set xs" by simp
        have "is_json (xs ! parseInt part)"
          using Cons.prems(2) JArr el by simp
        moreover have "subvalue (xs ! parseInt part) obj"
          using Cons.prems(3) JArr el subvalue_element by blast
        moreover have "own_steps h (xs ! parseInt part) parts"
          using Cons.prems(1) JArr True inside by simp
        ultimately have "\<exists>v. walk h (xs ! parseInt part) parts = Inr v \<and> located obj v"
          using Cons.IH by blast
        then show ?thesis
          using JArr True inside by (simp add: walk_JArr)
      next
        case False
        then show ?thesis using JArr True by (simp add: walk_JArr located_def)
      qed
    next
      case False
      show ?thesis
      proof (cases "part = js ''length''")
        case True
        have "subvalue (JArr xs) obj"
          using Cons.prems(3) JArr by simp
        then have "located obj (JNum (real (length xs)))"
          unfolding located_def by blast
        moreover have "located obj JUndefined"
          by (simp add: located_def)
        ultimately show ?thesis
          using JArr False True by (cases parts) (simp_all add: walk_JArr walk_scalar)
      next
        case notlen: False
        then have "array_inherited h part = None"
          using Cons.prems(1) JArr False by simp
        then show ?thesis using JArr False notlen by (simp add: walk_JArr located_def)
      qed
    qed
  next
    case (JObj kvs)
    show ?thesis
    proof (cases "map_of kvs part")
      case None
      then have "object_inherited h part = None"
        using Cons.prems(1) JObj by simp
      then show ?thesis using JObj None by (simp add: walk_JObj located_def)
    next
      case (Some x)
      then have mem: "(part, x) \<in> set kvs" by (rule map_of_SomeD)
      have "is_json x" using Cons.prems(2) JObj mem by force
      moreover have "subvalue x obj"
        using Cons.prems(3) JObj mem subvalue_member by blast
      moreover have "own_steps h x parts"
        using Cons.prems(1) JObj Some by simp
      ultimately have "\<exists>v. walk h x parts = Inr v \<and> located obj v"
        using Cons.IH by blast
      then show ?thesis
        using JObj Some by (simp add: walk_JObj)
    qed
  next
    case JUndefined
    then show ?thesis using Cons.prems(2) by simp
  next
    case (JBuiltin b)
    then show ?thesis using Cons.prems(2) by simp
  next
    case JNull
    then show ?thesis by (simp add: walk_eq_null eq_null_def located_def)
  next
    case (JBool b)
    then show ?thesis by (simp add: walk_scalar located_def)
  next
    case (JNum n)
    then show ?thesis by (simp add: walk_scalar located_def)
  next
    case (JInfinity negative)
    then show ?thesis by (simp add: walk_scalar located_def)
  next
    case (JStr s)
    then show ?thesis by (simp add: walk_scalar located_def)
  qed
qed

text \<open>
  The statement of C5 fails in its second half: on the empty object the path
  \<^verbatim>\<open>constructor\<close> returns the host's \<^verbatim>\<open>Object\<close> function, which is neither a JSON
  value nor \<^verbatim>\<open>undefined\<close>, and on the array with the single element 7 the path
  \<^verbatim>\<open>length\<close> returns 1, which is not located in the document.
\<close>

theorem C5_counterexample:
  "is_json (JObj [])
   \<and> extractPath es5_host (JObj []) (js ''constructor'') = Inr (JBuiltin ''Object'')
   \<and> \<not> is_json (JBuiltin ''Object'')
   \<and> is_json (JArr [JNum 7])
   \<and> extractPath es5_host (JArr [JNum 7]) (js ''length'') = Inr (JNum 1)
   \<and> \<not> subvalue (JNum 1) (JArr [JNum 7])"
proof -
  have "\<not> subvalue (JNum 1) (JNum 7)"
    by (auto elim: subvalue_JNumE)
  then have "\<not> subvalue (JNum 1) (JArr [JNum 7])"
    by (auto elim: subvalue_JArrE)
  moreover have "extractPath es5_host (JObj []) (js ''constructor'') = Inr (JBuiltin ''Object'')"
    by (simp add: extractPath_def walk_JObj string_eval es5_eval)
  moreover have "extractPath es5_host (JArr [JNum 7]) (js ''length'') = Inr (JNum 1)"
    by (simp add: extractPath_def walk_JArr string_eval)
  ultimately show ?thesis by simp
qed

text \<open>
  C5, amended. For every host, value and path, extraction returns normally: no operation
  of the loop throws, whatever the path. For a value that \<^verbatim>\<open>JSON.parse\<close> can return
  and a path along which no step resolves through a property inherited from the host
  (each token that is not an own property of the value it is applied to names nothing
  that value inherits), the result is \<^verbatim>\<open>undefined\<close>, a value located in the
  document, or the length of an array located in the document. A token that names an
  inherited property is no obstacle where the value has an own member of that name.
\<close>

theorem C5_extract_total:
  "(\<exists>v. extractPath h obj path = Inr v)
   \<and> (is_json obj \<and> own_steps h obj (path_parts path) \<longrightarrow>
      (\<exists>v. extractPath h obj path = Inr v
           \<and> (v = JUndefined \<or> subvalue v obj
               \<or> (\<exists>xs. subvalue (JArr xs) obj \<and> v = JNum (real (length xs))))))"
proof -
  have "\<exists>v. extractPath h obj path = Inr v"
    unfolding extractPath_def by (rule walk_total)
  moreover have "\<exists>v. extractPath h obj path = Inr v \<and> located obj v"
    if "is_json obj" and "own_steps h obj (path_parts path)"
    unfolding extractPath_def using that(2,1) subvalue.here by (rule walk_located)
  ultimately show ?thesis
    unfolding located_def by blast
qed

theorem C5_extract_total_witness:
  "is_json (JObj [(js ''toString'', JArr [JNum 7])])
   \<and> own_steps es5_host (JObj [(js ''toString'', JArr [JNum 7])]) (path_parts (js ''toString[0]''))
   \<and> object_inherited es5_host (js ''toString'') \<noteq> None
   \<and> extractPath es5_host (JObj [(js ''toString'', JArr [JNum 7])]) (js ''toString[0]'') = Inr (JNum 7)
   \<and> (\<exists>v. extractPath es5_host (JObj [(js ''toString'', JArr [JNum 7])]) (js ''toString[0]'') = Inr v
         \<and> (v = JUndefined \<or> subvalue v (JObj [(js ''toString'', JArr [JNum 7])])
             \<or> (\<exists>xs. subvalue (JArr xs) (JObj [(js ''toString'', JArr [JNum 7])])
                   \<and> v = JNum (real (length xs)))))"
proof -
  let ?doc = "JObj [(js ''toString'', JArr [JNum 7])]"
  have j: "is_json ?doc"
    by simp
  have p: "path_parts (js ''toString[0]'') = [js ''toString'', js ''0'']"
    by (simp add: string_eval)
  have n: "own_steps es5_host ?doc (path_parts (js ''toString[0]''))"
    unfolding p by (simp add: string_eval)
  have i: "object_inherited es5_host (js ''toString'') \<noteq> None"
    by (simp add: es5_eval js_def)
  have e: "extractPath es5_host ?doc (js ''toString[0]'') = Inr (JNum 7)"
    unfolding extractPath_def p by (simp add: walk_JObj walk_JArr string_eval)
  from C5_extract_total [of es5_host ?doc "js ''toString[0]''"] j n
  have "\<exists>v. extractPath es5_host ?doc (js ''toString[0]'') = Inr v
         \<and> (v = JUndefined \<or> subvalue v ?doc
             \<or> (\<exists>xs. subvalue (JArr xs) ?doc \<and> v = JNum (real (length xs))))"
    by blast
  with j n i e show ?thesis by blast
qed

section \<open>Locating the offset of a parse error\<close>

lemma locate_scan:
  "i \<le> length lines \<Longrightarrow> locate lines position i chars = scan (drop i lines) position i chars"
proof (induction lines position i chars rule: locate.induct)
  case (1 lines position i chars)
  show ?case
  proof (cases "i < length lines")
    case True
    then have d: "drop i lines = lines ! i # drop (Suc i) lines"
      by (simp add: Cons_nth_drop_Suc)
    show ?thesis
      using True 1 by (subst locate.simps) (simp add: d)
  next
    case False
    then show ?thesis by (subst locate.simps) simp
  qed
qed

lemma join_split: "join_lines (split_on (\<lambda>c. c = newline) t) = t"
proof (induction t)
  case Nil
  show ?case by simp
next
  case (Cons c t)
  obtain l ls where s: "split_on (\<lambda>c. c = newline) t = l # ls"
    using split_on_not_Nil [of "\<lambda>c. c = newline" t] by (cases "split_on (\<lambda>c. c = newline) t") auto
  show ?case
    using Cons s by (cases ls) auto
qed

lemma takeWhile_stop: "\<not> P y \<Longrightarrow> takeWhile P (xs @ y # ys) = takeWhile P xs"
  by (induction xs) auto

lemma no_newline_filter: "newline \<notin> set l \<Longrightarrow> filter (\<lambda>c. c = newline) l = []"
  by (induction l) auto

lemma manual_first_line:
  assumes "newline \<notin> set l" "r \<le> length l"
  shows "manual_line (l @ rest) r = Suc 0" "manual_col (l @ rest) r = Suc r"
proof -
  have t: "take r (l @ rest) = take r l"
    using assms(2) by simp
  have n: "newline \<notin> set (take r l)"
    using assms(1) by (auto dest: in_set_takeD)
  show "manual_line (l @ rest) r = Suc 0"
    unfolding manual_line_def t using n by (simp add: no_newline_filter)
  have tw: "takeWhile (\<lambda>c. c \<noteq> newline) (rev (take r l)) = rev (take r l)"
    using n by (auto simp: takeWhile_eq_all_conv)
  show "manual_col (l @ rest) r = Suc r"
    unfolding manual_col_def t tw using assms(2) by simp
qed

lemma manual_later_line:
  assumes "newline \<notin> set l" "length l < r"
  shows "manual_line (l @ newline # rest) r = Suc (manual_line rest (r - length l - 1))"
    "manual_col (l @ newline # rest) r = manual_col rest (r - length l - 1)"
proof -
  have t: "take r (l @ newline # rest) = l @ newline # take (r - length l - 1) rest"
    using assms(2) by (cases "r - length l") auto
  show "manual_line (l @ newline # rest) r = Suc (manual_line rest (r - length l - 1))"
    unfolding manual_line_def t using assms(1) by (simp add: no_newline_filter)
  show "manual_col (l @ newline # rest) r = manual_col rest (r - length l - 1)"
    unfolding manual_col_def t by (simp add: takeWhile_stop)
qed

lemma scan_manual:
  assumes "ls \<noteq> []" "\<forall>l \<in> set ls. newline \<notin> set l" "chars \<le> position"
    "position - chars \<le> length (join_lines ls)"
  shows "scan ls position i chars =
           (i + manual_line (join_lines ls) (position - chars),
            int (manual_col (join_lines ls) (position - chars)))"
  using assms
proof (induction ls arbitrary: i chars rule: join_lines.induct)
  case 1
  then show ?case by simp
next
  case (2 l)
  then have "position - chars \<le> length l" "newline \<notin> set l" by simp_all
  moreover from this 2(3) have "position \<le> chars + length l" by arith
  ultimately show ?case
    using manual_first_line [of l "position - chars" "[]"] 2(3) by (simp add: of_nat_diff)
next
  case (3 l m ls)
  have nl: "newline \<notin> set l" using 3(3) by simp
  show ?case
  proof (cases "position - chars \<le> length l")
    case True
    moreover from True 3(4) have "position \<le> chars + length l" by arith
    ultimately show ?thesis
      using manual_first_line [OF nl True, of "newline # join_lines (m # ls)"] 3(4)
      by (simp add: of_nat_diff)
  next
    case False
    then have lt: "length l < position - chars" by simp
    then have gt: "\<not> position \<le> chars + length l" by arith
    have r: "position - (chars + length l + 1) = position - chars - length l - 1"
      by simp
    have "scan (m # ls) position (i + 1) (chars + length l + 1) =
            (i + 1 + manual_line (join_lines (m # ls)) (position - (chars + length l + 1)),
             int (manual_col (join_lines (m # ls)) (position - (chars + length l + 1))))"
      using 3(3,5) lt by (intro 3(1)) auto
    then show ?thesis
      using gt manual_later_line [OF nl lt, of "join_lines (m # ls)"]
      by (simp add: r)
  qed
qed

lemma split_on_newline_free: "\<forall>l \<in> set (split_on (\<lambda>c. c = newline) t). newline \<notin> set l"
  using split_on_all_no_sep [of "\<lambda>c. c = newline" t] by (auto simp: list_all_iff)

lemma locate_manual:
  assumes "position \<le> length text"
  shows "locate (split_on (\<lambda>c. c = newline) text) position 0 0 =
           (manual_line text position, int (manual_col text position))"
proof -
  let ?ls = "split_on (\<lambda>c. c = newline) text"
  have "scan ?ls position 0 0 =
          (0 + manual_line (join_lines ?ls) (position - 0), int (manual_col (join_lines ?ls) (position - 0)))"
    using assms by (intro scan_manual) (simp_all add: split_on_not_Nil split_on_newline_free join_split)
  then show ?thesis
    by (simp add: locate_scan join_split)
qed

lemma chars_before_Suc:
  "chars_before (l # ls) (Suc j) = length l + 1 + chars_before ls j"
  by (simp add: chars_before_def)

lemma scan_first:
  assumes "k < length ls"
    and "\<forall>j<k. chars + chars_before ls j + length (ls ! j) < position"
    and "position \<le> chars + chars_before ls k + length (ls ! k)"
  shows "scan ls position i chars = (i + k + 1, int position - int (chars + chars_before ls k) + 1)"
  using assms
proof (induction ls arbitrary: k i chars)
  case Nil
  then show ?case by simp
next
  case (Cons l ls)
  show ?case
  proof (cases k)
    case 0
    then show ?thesis using Cons.prems(3) by (simp add: chars_before_def)
  next
    case (Suc k')
    have "chars + chars_before (l # ls) 0 + length ((l # ls) ! 0) < position"
      using Cons.prems(2) Suc by blast
    then have first: "\<not> position \<le> chars + length l"
      by (simp add: chars_before_def)
    have a: "k' < length ls" using Cons.prems(1) Suc by simp
    have b: "\<forall>j<k'. (chars + length l + 1) + chars_before ls j + length (ls ! j) < position"
    proof (intro allI impI)
      fix j assume "j < k'"
      then have "chars + chars_before (l # ls) (Suc j) + length ((l # ls) ! Suc j) < position"
        using Cons.prems(2) [rule_format, of "Suc j"] Suc by simp
      then show "(chars + length l + 1) + chars_before ls j + length (ls ! j) < position"
        by (simp add: chars_before_Suc)
    qed
    have c: "position \<le> (chars + length l + 1) + chars_before ls k' + length (ls ! k')"
      using Cons.prems(3) Suc by (simp add: chars_before_Suc)
    have "scan ls position (i + 1) (chars + length l + 1) =
            (i + 1 + k' + 1, int position - int ((chars + length l + 1) + chars_before ls k') + 1)"
      using a b c by (rule Cons.IH)
    then show ?thesis
      using first Suc by (simp add: chars_before_Suc)
  qed
qed

lemma scan_none:
  assumes "\<forall>j<length ls. chars + chars_before ls j + length (ls ! j) < position"
  shows "scan ls position i chars = (1, 1)"
  using assms
proof (induction ls arbitrary: i chars)
  case Nil
  show ?case by simp
next
  case (Cons l ls)
  have "chars + chars_before (l # ls) 0 + length ((l # ls) ! 0) < position"
    using Cons.prems by blast
  then have first: "\<not> position \<le> chars + length l"
    by (simp add: chars_before_def)
  have "\<forall>j<length ls. (chars + length l + 1) + chars_before ls j + length (ls ! j) < position"
  proof (intro allI impI)
    fix j assume "j < length ls"
    then have "chars + chars_before (l # ls) (Suc j) + length ((l # ls) ! Suc j) < position"
      using Cons.prems [rule_format, of "Suc j"] by simp
    then show "(chars + length l + 1) + chars_before ls j + length (ls ! j) < position"
      by (simp add: chars_before_Suc)
  qed
  then have "scan ls position (i + 1) (chars + length l + 1) = (1, 1)"
    by (rule Cons.IH)
  then show ?case using first by simp
qed

lemma scan_bounds:
  "chars \<le> position \<Longrightarrow> ls \<noteq> [] \<or> 1 \<le> i \<Longrightarrow>
   1 \<le> fst (scan ls position i chars) \<and> fst (scan ls position i chars) \<le> i + length ls
   \<and> 1 \<le> snd (scan ls position i chars)"
proof (induction ls arbitrary: i chars)
  case Nil
  then show ?case by simp
next
  case (Cons l ls)
  show ?case
  proof (cases "position \<le> chars + length l")
    case True
    then show ?thesis using Cons.prems(1) by simp
  next
    case False
    then have "chars + length l + 1 \<le> position" by simp
    then have "1 \<le> fst (scan ls position (i + 1) (chars + length l + 1))
      \<and> fst (scan ls position (i + 1) (chars + length l + 1)) \<le> i + 1 + length ls
      \<and> 1 \<le> snd (scan ls position (i + 1) (chars + length l + 1))"
      by (intro Cons.IH) simp_all
    then show ?thesis using False by simp
  qed
qed

lemma locate_bounds:
  assumes "lines \<noteq> []"
  shows "1 \<le> fst (locate lines position 0 0)"
    and "fst (locate lines position 0 0) \<le> length lines"
    and "1 \<le> snd (locate lines position 0 0)"
  using scan_bounds [of 0 position lines 0] assms
  by (simp_all add: locate_scan)

lemma scan_beyond:
  "chars + length (join_lines ls) < position \<Longrightarrow> scan ls position i chars = (1, 1)"
proof (induction ls arbitrary: i chars rule: join_lines.induct)
  case 1
  show ?case by simp
next
  case (2 l)
  then show ?case by simp
next
  case (3 l m ls)
  from 3(2) have far: "\<not> position \<le> chars + length l"
    and "(chars + length l + 1) + length (join_lines (m # ls)) < position"
    by simp_all
  then have "scan (m # ls) position (i + 1) (chars + length l + 1) = (1, 1)"
    by (intro 3(1))
  then show ?case
    using far by (simp only: scan.simps(2) [of l] if_False)
qed

lemma locate_beyond:
  "length text < position \<Longrightarrow> locate (split_on (\<lambda>c. c = newline) text) position 0 0 = (1, 1)"
  using scan_beyond [of 0 "split_on (\<lambda>c. c = newline) text" position 0]
  by (simp add: locate_scan join_split)

lemma locate_first:
  assumes "i < length lines"
    and "\<forall>j<i. chars_before lines j + length (lines ! j) < position"
    and "position \<le> chars_before lines i + length (lines ! i)"
  shows "locate lines position 0 0 = (i + 1, int position - int (chars_before lines i) + 1)"
  using scan_first [of i lines 0 position 0] assms by (simp add: locate_scan)

lemma locate_none:
  assumes "\<forall>j<length lines. chars_before lines j + length (lines ! j) < position"
  shows "locate lines position 0 0 = (1, 1)"
  using scan_none [of lines 0 position 0] assms by (simp add: locate_scan)

lemma concat_replicate_single: "concat (replicate n [x]) = replicate n x"
  by (induction n) simp_all

lemma safeParse_diagnostic:
  assumes "JSON_parse text = Inl message" and "match_position message = Some digits"
    and "lines = split_on (\<lambda>c. c = newline) text"
    and "lc = locate lines (parseInt digits) 0 0"
  shows "safeParse JSON_parse text =
           Inl (Error (diagnostic message (fst lc) (lines ! (fst lc - 1))
                         (replicate (nat (snd lc - 1)) 32 @ js ''^'')))"
proof -
  have ne: "lines \<noteq> []"
    using assms(3) by (simp add: split_on_not_Nil)
  have "1 \<le> fst lc" "fst lc \<le> length lines" "1 \<le> snd lc"
    using locate_bounds [OF ne, of "parseInt digits"] assms(4) by simp_all
  then have a: "fst lc - 1 < length lines" and b: "\<not> snd lc - 1 < 0"
    by simp_all
  have sp: "js '' '' = [32]"
    by (simp add: js_def)
  show ?thesis
    using assms a b
    by (simp add: safeParse_def Let_def case_prod_beta repeat_def sp concat_replicate_single)
qed

lemma position_not_Nil: "js ''position '' \<noteq> []"
  by (simp add: js_def)

lemma match_position_None_iff:
  "match_position m = None \<longleftrightarrow>
     \<not> (\<exists>before d after. m = before @ js ''position '' @ d # after \<and> is_digit d)"
proof (induction m)
  case Nil
  show ?case using position_not_Nil by simp
next
  case (Cons c cs)
  let ?P = "js ''position ''"
  let ?hit = "prefix ?P (c # cs) \<and> takeWhile is_digit (drop (length ?P) (c # cs)) \<noteq> []"
  show ?case
  proof (cases ?hit)
    case True
    then obtain rest where r: "c # cs = ?P @ rest"
      by (auto simp: prefix_def)
    with True have "takeWhile is_digit rest \<noteq> []"
      by simp
    then obtain d after where "rest = d # after" "is_digit d"
      by (cases rest) (auto split: if_splits)
    with r have "c # cs = [] @ ?P @ d # after \<and> is_digit d"
      by simp
    then have "\<exists>before d after. c # cs = before @ ?P @ d # after \<and> is_digit d"
      by blast
    moreover have "match_position (c # cs) \<noteq> None"
      using True by simp
    ultimately show ?thesis by blast
  next
    case False
    then have m: "match_position (c # cs) = match_position cs"
      by auto
    have "(\<exists>before d after. c # cs = before @ ?P @ d # after \<and> is_digit d)
        \<longleftrightarrow> (\<exists>before d after. cs = before @ ?P @ d # after \<and> is_digit d)"
    proof
      assume "\<exists>before d after. c # cs = before @ ?P @ d # after \<and> is_digit d"
      then obtain before d after where e: "c # cs = before @ ?P @ d # after" and d: "is_digit d"
        by blast
      show "\<exists>before d after. cs = before @ ?P @ d # after \<and> is_digit d"
      proof (cases before)
        case Nil
        with e d have ?hit by simp
        with False show ?thesis by blast
      next
        case (Cons b bs)
        with e have "cs = bs @ ?P @ d # after" by simp
        with d show ?thesis by blast
      qed
    next
      assume "\<exists>before d after. cs = before @ ?P @ d # after \<and> is_digit d"
      then obtain before d after where "cs = before @ ?P @ d # after" and d: "is_digit d"
        by blast
      then have "c # cs = (c # before) @ ?P @ d # after" by simp
      with d show "\<exists>before d after. c # cs = before @ ?P @ d # after \<and> is_digit d"
        by blast
    qed
    with m Cons.IH show ?thesis by simp
  qed
qed

lemma safeParse_value:
  "(safeParse JSON_parse text = Inr v) = (JSON_parse text = Inr v)"
  by (cases "JSON_parse text")
     (auto simp: safeParse_def Let_def split: option.splits prod.splits sum.splits)

text \<open>
  C8. When the parser rejects the text with a message that nowhere holds the word
  \<^verbatim>\<open>position\<close>, a space and a digit, \<open>safeParse\<close> throws the parser's own error
  with its message unchanged.
\<close>

theorem C8_raw_message:
  assumes "JSON_parse text = Inl message"
    and "\<not> (\<exists>before d after. message = before @ js ''position '' @ d # after \<and> is_digit d)"
  shows "safeParse JSON_parse text = Inl (SyntaxError message)"
proof -
  have "match_position message = None"
    using assms(2) by (simp add: match_position_None_iff)
  with assms(1) show ?thesis
    by (simp add: safeParse_def)
qed

theorem C8_raw_message_witness:
  "safeParse (\<lambda>s. Inl (js ''Unexpected end of JSON input'')) (js ''[1,'')
     = Inl (SyntaxError (js ''Unexpected end of JSON input''))"
proof -
  have "match_position (js ''Unexpected end of JSON input'') = None"
    by (simp add: js_def)
  then have "\<not> (\<exists>before d after.
      js ''Unexpected end of JSON input'' = before @ js ''position '' @ d # after \<and> is_digit d)"
    using match_position_None_iff by blast
  with C8_raw_message [of "\<lambda>s. Inl (js ''Unexpected end of JSON input'')" "js ''[1,''"
      "js ''Unexpected end of JSON input''"]
  show ?thesis by simp
qed

text \<open>
  C3. When the parser's message holds an offset, the thrown diagnostic shows the line
  and the column that the loop computes: the caret stands after \<open>col - 1\<close> spaces
  under the text of line \<open>line\<close>. The loop stops at the first line for which the
  characters before it (for each earlier line its length plus one for the newline) plus
  its own length reach the offset; the line is its index counted from 1 and the column
  is the offset minus the characters before the line, plus 1. For an offset inside the
  text or at its end this is the line and column found by counting the newlines before
  the offset by hand. When no line reaches the offset, as for every offset past the end
  of the text, line and column keep their initial value 1.
\<close>

theorem C3_line_and_column:
  assumes "JSON_parse text = Inl message"
    and "match_position message = Some digits"
    and "position = parseInt digits"
    and "lines = split_on (\<lambda>c. c = newline) text"
  shows "safeParse JSON_parse text =
           Inl (Error (diagnostic message
                  (fst (locate lines position 0 0))
                  (lines ! (fst (locate lines position 0 0) - 1))
                  (replicate (nat (snd (locate lines position 0 0) - 1)) 32 @ js ''^'')))
     \<and> (\<forall>i<length lines.
           (\<forall>j<i. chars_before lines j + length (lines ! j) < position)
           \<and> position \<le> chars_before lines i + length (lines ! i) \<longrightarrow>
           locate lines position 0 0 = (i + 1, int position - int (chars_before lines i) + 1))
     \<and> ((\<forall>j<length lines. chars_before lines j + length (lines ! j) < position) \<longrightarrow>
           locate lines position 0 0 = (1, 1))
     \<and> (position \<le> length text \<longrightarrow>
           locate lines position 0 0 = (manual_line text position, int (manual_col text position)))
     \<and> (length text < position \<longrightarrow> locate lines position 0 0 = (1, 1))"
proof -
  have "safeParse JSON_parse text =
           Inl (Error (diagnostic message
                  (fst (locate lines position 0 0))
                  (lines ! (fst (locate lines position 0 0) - 1))
                  (replicate (nat (snd (locate lines position 0 0) - 1)) 32 @ js ''^'')))"
    using assms by (intro safeParse_diagnostic) simp_all
  moreover have "\<forall>i<length lines.
           (\<forall>j<i. chars_before lines j + length (lines ! j) < position)
           \<and> position \<le> chars_before lines i + length (lines ! i) \<longrightarrow>
           locate lines position 0 0 = (i + 1, int position - int (chars_before lines i) + 1)"
    using locate_first by blast
  moreover have "(\<forall>j<length lines. chars_before lines j + length (lines ! j) < position) \<longrightarrow>
           locate lines position 0 0 = (1, 1)"
    using locate_none by blast
  moreover have "position \<le> length text \<longrightarrow>
           locate lines position 0 0 = (manual_line text position, int (manual_col text position))"
    using locate_manual assms(4) by simp
  moreover have "length text < position \<longrightarrow> locate lines position 0 0 = (1, 1)"
    using locate_beyond assms(4) by simp
  ultimately show ?thesis by blast
qed

theorem C3_line_and_column_witness:
  "match_position (js ''Unexpected token ] in JSON at position 8'') = Some (js ''8'')
   \<and> parseInt (js ''8'') = 8
   \<and> split_on (\<lambda>c. c = newline) (js ''[1,'' @ newline # js '' 2, ]'') = [js ''[1,'', js '' 2, ]'']
   \<and> 8 \<le> length (js ''[1,'' @ newline # js '' 2, ]'')
   \<and> manual_line (js ''[1,'' @ newline # js '' 2, ]'') 8 = 2
   \<and> manual_col (js ''[1,'' @ newline # js '' 2, ]'') 8 = 5
   \<and> locate [js ''[1,'', js '' 2, ]''] 8 0 0 = (2, 5)
   \<and> safeParse (\<lambda>s. Inl (js ''Unexpected token ] in JSON at position 8''))
         (js ''[1,'' @ newline # js '' 2, ]'')
       = Inl (Error (diagnostic (js ''Unexpected token ] in JSON at position 8'') 2
                       (js '' 2, ]'') (js ''    ^'')))"
proof -
  let ?msg = "js ''Unexpected token ] in JSON at position 8''"
  let ?text = "js ''[1,'' @ newline # js '' 2, ]''"
  let ?lines = "[js ''[1,'', js '' 2, ]'']"
  have m: "match_position ?msg = Some (js ''8'')"
    by (simp add: js_def is_digit_def)
  have p: "8 = parseInt (js ''8'')"
    by (simp add: js_def parseInt_def digit_value_def)
  have s: "?lines = split_on (\<lambda>c. c = newline) ?text"
    by (simp add: js_def newline_def)
  have len: "8 \<le> length ?text"
    by (simp add: js_def)
  have ml: "manual_line ?text 8 = 2" and mc: "manual_col ?text 8 = 5"
    by (simp_all add: manual_line_def manual_col_def js_def newline_def)
  have sp: "replicate 4 32 @ js ''^'' = js ''    ^''"
    by (simp add: js_def numeral_eq_Suc)
  from C3_line_and_column [of "\<lambda>s. Inl ?msg" ?text ?msg "js ''8''" 8 ?lines, OF refl m p s] len
  have l: "locate ?lines 8 0 0 = (manual_line ?text 8, int (manual_col ?text 8))"
    and r: "safeParse (\<lambda>s. Inl ?msg) ?text =
         Inl (Error (diagnostic ?msg (fst (locate ?lines 8 0 0))
               (?lines ! (fst (locate ?lines 8 0 0) - 1))
               (replicate (nat (snd (locate ?lines 8 0 0) - 1)) 32 @ js ''^'')))"
    by blast+
  from l ml mc have l': "locate ?lines 8 0 0 = (2, 5)"
    by simp
  from r have "safeParse (\<lambda>s. Inl ?msg) ?text = Inl (Error (diagnostic ?msg 2 (js '' 2, ]'') (js ''    ^'')))"
    unfolding l' by (simp add: sp)
  with m p [symmetric] s [symmetric] len ml mc l' show ?thesis
    by simp
qed

section \<open>Number literals\<close>

lemma span_digits:
  assumes "list_all is_digit ds" "stops_digits tail"
  shows "takeWhile is_digit (ds @ tail) = ds" "dropWhile is_digit (ds @ tail) = tail"
proof -
  have t: "takeWhile is_digit tail = []" "dropWhile is_digit tail = tail"
    using assms(2) by (cases tail; simp add: stops_digits_def)+
  show "takeWhile is_digit (ds @ tail) = ds"
    using assms(1) t by (simp add: takeWhile_append2 list_all_iff)
  show "dropWhile is_digit (ds @ tail) = tail"
    using assms(1) t by (simp add: dropWhile_append2 list_all_iff)
qed

lemma digits_takeWhile: "list_all is_digit (takeWhile is_digit s)"
  by (induction s) simp_all


lemma lex_int_complete:
  assumes "int_text ip" "stops_digits tail"
  shows "lex_int (ip @ tail) = Some (ip, tail)"
proof (cases "ip = [48]")
  case True
  then show ?thesis by simp
next
  case False
  with assms(1) have d: "test_digits ip" and h: "hd ip \<noteq> 48"
    by (simp_all add: int_text_def)
  then obtain c cs where ip: "ip = c # cs" and c: "is_digit c" "c \<noteq> 48" and cs: "list_all is_digit cs"
    by (cases ip) (auto simp: test_digits_def)
  show ?thesis
    using c span_digits [OF cs assms(2)] by (simp add: ip)
qed

lemma lex_int_sound:
  assumes "lex_int input = Some (ip, r)"
  shows "int_text ip" "input = ip @ r"
proof -
  obtain c cs where i: "input = c # cs"
    using assms by (cases input) simp_all
  show "int_text ip" "input = ip @ r"
  proof -
    consider (zero) "c = 48" | (digit) "c \<noteq> 48" "is_digit c"
      using assms i by (auto split: if_splits)
    then have "int_text ip \<and> input = ip @ r"
    proof cases
      case zero
      then show ?thesis using assms i by (auto simp: int_text_def)
    next
      case digit
      then have "ip = c # takeWhile is_digit cs" "r = dropWhile is_digit cs"
        using assms i by auto
      then show ?thesis
        using digit i by (simp add: int_text_def test_digits_def digits_takeWhile)
    qed
    then show "int_text ip" "input = ip @ r" by simp_all
  qed
qed

lemma lex_frac_complete:
  assumes "frac_text ft fp" "stops_digits tail" "ft = [] \<longrightarrow> tail = [] \<or> hd tail \<noteq> 46"
  shows "lex_frac (ft @ tail) = Some (fp, tail)"
  using assms
proof (cases rule: frac_text.cases)
  case no_frac
  then show ?thesis using assms(3) by (cases tail) simp_all
next
  case frac
  then have "list_all is_digit fp" "fp \<noteq> []"
    by (simp_all add: test_digits_def)
  then show ?thesis
    using span_digits [OF _ assms(2), of fp] frac by simp
qed

lemma lex_frac_sound:
  assumes "lex_frac input = Some (fp, r)"
  shows "\<exists>ft. frac_text ft fp \<and> input = ft @ r"
proof (cases input)
  case Nil
  with assms have "fp = []" "r = []" by simp_all
  with Nil show ?thesis by (auto intro: frac_text.no_frac)
next
  case (Cons c cs)
  show ?thesis
  proof (cases "c = 46")
    case True
    with assms Cons have ne: "takeWhile is_digit cs \<noteq> []"
      and fp: "fp = takeWhile is_digit cs" and r: "r = dropWhile is_digit cs"
      by (auto split: if_splits)
    have "frac_text (46 # fp) fp"
      using ne fp by (intro frac_text.frac) (simp add: test_digits_def digits_takeWhile)
    moreover have "input = (46 # fp) @ r"
      using Cons True fp r by simp
    ultimately show ?thesis by blast
  next
    case False
    with assms Cons have "fp = []" "r = input" by simp_all
    then show ?thesis by (auto intro: frac_text.no_frac)
  qed
qed

lemma lex_exp_complete:
  assumes "exp_text et e" "stops_digits tail" "et = [] \<longrightarrow> tail = [] \<or> (hd tail \<noteq> 101 \<and> hd tail \<noteq> 69)"
  shows "lex_exp (et @ tail) = Some (e, tail)"
  using assms
proof (cases rule: exp_text.cases)
  case no_exp
  then show ?thesis using assms(3) by (cases tail) simp_all
next
  case (exp_plain mark ds)
  then have d: "list_all is_digit ds" "ds \<noteq> []" by (simp_all add: test_digits_def)
  then obtain c cs where ds: "ds = c # cs" "is_digit c" by (cases ds) auto
  then have "c \<noteq> 45" "c \<noteq> 43" by (auto simp: is_digit_def)
  then have "lex_sign (ds @ tail) = (False, ds @ tail)" by (simp add: ds)
  then show ?thesis
    using span_digits [OF d(1) assms(2)] d(2) exp_plain by auto
next
  case (exp_plus mark ds)
  then have d: "list_all is_digit ds" "ds \<noteq> []" by (simp_all add: test_digits_def)
  then show ?thesis
    using span_digits [OF d(1) assms(2)] exp_plus by auto
next
  case (exp_minus mark ds)
  then have d: "list_all is_digit ds" "ds \<noteq> []" by (simp_all add: test_digits_def)
  then show ?thesis
    using span_digits [OF d(1) assms(2)] exp_minus by auto
qed


lemma lex_sign_cases:
  "lex_sign s = (negative, ds) \<Longrightarrow>
   (negative \<and> s = 45 # ds) \<or> (\<not> negative \<and> s = 43 # ds) \<or> (\<not> negative \<and> s = ds \<and> (ds = [] \<or> (hd ds \<noteq> 45 \<and> hd ds \<noteq> 43)))"
  by (cases s) (auto split: if_splits)

lemma lex_exp_sound:
  assumes "lex_exp input = Some (e, r)"
  shows "\<exists>et. exp_text et e \<and> input = et @ r"
proof (cases input)
  case Nil
  with assms have "e = 0" "r = []" by simp_all
  with Nil show ?thesis by (auto intro: exp_text.no_exp)
next
  case (Cons c cs)
  show ?thesis
  proof (cases "c = 101 \<or> c = 69")
    case False
    with assms Cons have "e = 0" "r = input" by simp_all
    then show ?thesis by (auto intro: exp_text.no_exp)
  next
    case True
    obtain negative ds where sg: "lex_sign cs = (negative, ds)"
      by (cases "lex_sign cs")
    let ?d = "takeWhile is_digit ds"
    from assms Cons True sg have ne: "?d \<noteq> []" and r: "r = dropWhile is_digit ds"
      and e: "e = (if negative then - int (parseInt ?d) else int (parseInt ?d))"
      by (auto split: if_splits)
    have td: "test_digits ?d"
      using ne by (simp add: test_digits_def digits_takeWhile)
    have ds: "ds = ?d @ r"
      using r by simp
    from lex_sign_cases [OF sg] consider
        (minus) "negative" "cs = 45 # ds"
      | (plus) "\<not> negative" "cs = 43 # ds"
      | (none) "\<not> negative" "cs = ds"
      by blast
    then show ?thesis
    proof cases
      case minus
      have "exp_text (c # 45 # ?d) (- int (parseInt ?d))"
        using True td by (intro exp_text.exp_minus)
      moreover have "input = (c # 45 # ?d) @ r"
        using Cons minus ds by simp
      ultimately show ?thesis using e minus by auto
    next
      case plus
      have "exp_text (c # 43 # ?d) (int (parseInt ?d))"
        using True td by (intro exp_text.exp_plus)
      moreover have "input = (c # 43 # ?d) @ r"
        using Cons plus ds by simp
      ultimately show ?thesis using e plus by auto
    next
      case none
      have "exp_text (c # ?d) (int (parseInt ?d))"
        using True td by (intro exp_text.exp_plain)
      moreover have "input = (c # ?d) @ r"
        using Cons none ds by simp
      ultimately show ?thesis using e none by auto
    qed
  qed
qed

lemma stops_number_digits: "stops_number tail \<Longrightarrow> stops_digits tail"
  by (cases tail) (simp_all add: stops_number_def stops_digits_def)

lemma frac_text_head: "frac_text ft fp \<Longrightarrow> ft = [] \<or> hd ft = 46"
  by (auto elim: frac_text.cases)

lemma exp_text_head: "exp_text et e \<Longrightarrow> et = [] \<or> hd et = 101 \<or> hd et = 69"
  by (auto elim: exp_text.cases)

lemma not_digit_marks: "\<not> is_digit 46" "\<not> is_digit 101" "\<not> is_digit 69" "\<not> is_digit 45"
  by (simp_all add: is_digit_def)

lemma lex_unsigned_complete:
  assumes "int_text ip" "frac_text ft fp" "exp_text et e" "stops_number rest"
  shows "lex_int (ip @ ft @ et @ rest) = Some (ip, ft @ et @ rest)"
    and "lex_frac (ft @ et @ rest) = Some (fp, et @ rest)"
    and "lex_exp (et @ rest) = Some (e, rest)"
proof -
  have sr: "stops_digits rest"
    using assms(4) by (rule stops_number_digits)
  have se: "stops_digits (et @ rest)"
    using exp_text_head [OF assms(3)] sr
    by (cases et) (auto simp: stops_digits_def not_digit_marks)
  have sf: "stops_digits (ft @ et @ rest)"
    using frac_text_head [OF assms(2)] se
    by (cases ft) (auto simp: stops_digits_def not_digit_marks)
  show "lex_int (ip @ ft @ et @ rest) = Some (ip, ft @ et @ rest)"
    using assms(1) sf by (rule lex_int_complete)
  have "ft = [] \<longrightarrow> et @ rest = [] \<or> hd (et @ rest) \<noteq> 46"
    using exp_text_head [OF assms(3)] assms(4)
    by (cases et; cases rest) (auto simp: stops_number_def)
  with assms(2) se show "lex_frac (ft @ et @ rest) = Some (fp, et @ rest)"
    by (rule lex_frac_complete)
  have "et = [] \<longrightarrow> rest = [] \<or> (hd rest \<noteq> 101 \<and> hd rest \<noteq> 69)"
    using assms(4) by (cases rest) (auto simp: stops_number_def)
  with assms(3) sr show "lex_exp (et @ rest) = Some (e, rest)"
    by (rule lex_exp_complete)
qed

lemma int_text_head: "int_text ip \<Longrightarrow> ip \<noteq> [] \<and> is_digit (hd ip)"
  by (cases ip) (auto simp: int_text_def test_digits_def is_digit_def)

lemma lex_number_complete:
  assumes "number_text s m" "stops_number rest"
  shows "lex_number (s @ rest) = Some (m, rest)"
  using assms(1)
proof (cases rule: number_text.cases)
  case (positive ip ft fp et e)
  from int_text_head [OF positive(3)] obtain c cs where ip: "ip = c # cs" "is_digit c"
    by (cases ip) auto
  then have "c \<noteq> 45" using not_digit_marks(4) by auto
  then have "lex_minus (s @ rest) = (False, ip @ ft @ et @ rest)"
    using positive(1) ip by simp
  then show ?thesis
    using lex_unsigned_complete [OF positive(3,4,5) assms(2)] positive(2)
    by (simp add: lex_number_def)
next
  case (negative ip ft fp et e)
  have "lex_minus (s @ rest) = (True, ip @ ft @ et @ rest)"
    using negative(1) by simp
  then show ?thesis
    using lex_unsigned_complete [OF negative(3,4,5) assms(2)] negative(2)
    by (simp add: lex_number_def)
qed

lemma lex_number_sound:
  assumes "lex_number input = Some (m, rest)"
  shows "\<exists>s. number_text s m \<and> input = s @ rest"
proof -
  obtain negative s1 where lm: "lex_minus input = (negative, s1)"
    by (cases "lex_minus input")
  from assms lm obtain ip s2 where li: "lex_int s1 = Some (ip, s2)"
    by (auto simp: lex_number_def split: option.splits)
  from assms lm li obtain fp s3 where lf: "lex_frac s2 = Some (fp, s3)"
    by (auto simp: lex_number_def split: option.splits)
  from assms lm li lf obtain e where le: "lex_exp s3 = Some (e, rest)"
    and m: "m = number_value negative ip fp e"
    by (auto simp: lex_number_def split: option.splits)
  from lex_int_sound [OF li] have it: "int_text ip" and s1: "s1 = ip @ s2" .
  from lex_frac_sound [OF lf] obtain ft where ft: "frac_text ft fp" and s2: "s2 = ft @ s3"
    by blast
  from lex_exp_sound [OF le] obtain et where et: "exp_text et e" and s3: "s3 = et @ rest"
    by blast
  have s1': "s1 = (ip @ ft @ et) @ rest"
    using s1 s2 s3 by simp
  show ?thesis
  proof (cases negative)
    case True
    with lm have "input = 45 # s1"
      by (cases input) (auto split: if_splits)
    then have "input = (45 # ip @ ft @ et) @ rest"
      using s1' by simp
    moreover have "number_text (45 # ip @ ft @ et) m"
      unfolding m using True it ft et by (auto intro: number_text.negative)
    ultimately show ?thesis by blast
  next
    case False
    with lm have "input = s1"
      by (cases input) (auto split: if_splits)
    then have "input = (ip @ ft @ et) @ rest"
      using s1' by simp
    moreover have "number_text (ip @ ft @ et) m"
      unfolding m using False it ft et by (auto intro: number_text.positive)
    ultimately show ?thesis by blast
  qed
qed

lemma number_text_head:
  "number_text s m \<Longrightarrow> s \<noteq> [] \<and> (hd s = 45 \<or> is_digit (hd s))"
  by (auto elim!: number_text.cases dest: int_text_head)

section \<open>String literals\<close>

lemma unescape_not_u: "unescape e = Some u \<Longrightarrow> e \<noteq> 117"
  by (auto simp: unescape_def split: if_splits)

lemma parse_chars_complete:
  "string_text t s \<Longrightarrow> parse_chars (t @ 34 # rest) = Some (s, rest)"
proof (induction rule: string_text.induct)
  case no_chars
  show ?case by simp
next
  case (plain c t s)
  then have "\<not> c < 32" by (simp add: not_less)
  with plain show ?case by simp
next
  case (escape e u t s)
  then show ?case using unescape_not_u [OF escape(1)] by simp
next
  case (unicode a b c d u t s)
  then show ?case by simp
qed

lemma parse_chars_sound:
  "parse_chars input = Some (s, rest) \<Longrightarrow> \<exists>t. string_text t s \<and> input = t @ 34 # rest"
proof (induction "length input" arbitrary: input s rule: less_induct)
  case less
  note IH = less(1) and res = less(2)
  from res obtain c cs where input: "input = c # cs"
    by (cases input) simp_all
  show ?case
  proof (cases "c = 34")
    case True
    with res input have "s = []" "rest = cs" by simp_all
    with True input show ?thesis by (auto intro: string_text.no_chars)
  next
    case q: False
    show ?thesis
    proof (cases "c = 92")
      case False
      with q res input have ge: "\<not> c < 32"
        by (auto split: if_splits)
      from q False ge res input obtain s' where s: "s = c # s'"
        and p: "parse_chars cs = Some (s', rest)"
        by auto
      have "length cs < length input" using input by simp
      from IH [OF this p] obtain t where "string_text t s'" "cs = t @ 34 # rest"
        by blast
      then have "string_text (c # t) (c # s')" "input = (c # t) @ 34 # rest"
        using q False ge input by (auto simp: not_less intro: string_text.plain)
      then show ?thesis using s by blast
    next
      case True
      with q res input obtain e r where cs: "cs = e # r"
        by (cases cs) auto
      show ?thesis
      proof (cases "e = 117")
        case u: True
        with q True cs res input obtain a b c' d r' where r: "r = a # b # c' # d # r'"
          by (auto split: list.splits)
        with q True cs u res input obtain x where h: "hex4_value a b c' d = Some x"
          by (auto split: option.splits)
        with q True cs u r res input obtain s' where s: "s = x # s'"
          and p: "parse_chars r' = Some (s', rest)"
          by auto
        have "length r' < length input" using input cs r by simp
        from IH [OF this p] obtain t where "string_text t s'" "r' = t @ 34 # rest"
          by blast
        then have "string_text (92 # 117 # a # b # c' # d # t) (x # s')"
          "input = (92 # 117 # a # b # c' # d # t) @ 34 # rest"
          using h True cs u r input by (auto intro: string_text.unicode)
        then show ?thesis using s by blast
      next
        case nu: False
        with q True cs res input obtain x where h: "unescape e = Some x"
          by (auto split: option.splits)
        with q True cs nu res input obtain s' where s: "s = x # s'"
          and p: "parse_chars r = Some (s', rest)"
          by auto
        have "length r < length input" using input cs by simp
        from IH [OF this p] obtain t where "string_text t s'" "r = t @ 34 # rest"
          by blast
        then have "string_text (92 # e # t) (x # s')" "input = (92 # e # t) @ 34 # rest"
          using h True cs input by (auto intro: string_text.escape)
        then show ?thesis using s by blast
      qed
    qed
  qed
qed

section \<open>Completeness of the parser\<close>

lemma skip_ws_append:
  "ws_text w \<Longrightarrow> skip_ws (w @ rest) = skip_ws rest"
  by (induction w) (simp_all add: ws_text_def skip_ws_def)

lemma skip_ws_stop: "\<not> is_ws c \<Longrightarrow> skip_ws (c # cs) = c # cs"
  by (simp add: skip_ws_def)

lemma skip_ws_Nil: "ws_text w \<Longrightarrow> skip_ws w = []"
  by (induction w) (simp_all add: ws_text_def skip_ws_def)

lemma starts_value_not_ws: "starts_value c \<Longrightarrow> \<not> is_ws c \<and> c \<noteq> 93 \<and> c \<noteq> 125"
  by (auto simp: starts_value_def is_ws_def is_digit_def)

lemma value_text_head: "value_text jh s v \<Longrightarrow> \<exists>c cs. s = c # cs \<and> starts_value c"
proof (induction rule: value_text.cases)
  case (number s m)
  then show ?case
    using number_text_head [of s m] by (cases s) (auto simp: starts_value_def)
qed (simp_all add: js_def starts_value_def)

lemma elements_text_head:
  "elements_text jh es vs \<Longrightarrow> \<exists>w c cs. es = w @ c # cs \<and> ws_text w \<and> starts_value c"
proof (induction rule: elements_text.cases)
  case (last_element w1 s v w2)
  from value_text_head [OF last_element(4)] obtain c cs where "s = c # cs" "starts_value c"
    by blast
  then have "es = w1 @ c # (cs @ w2)" "ws_text w1" "starts_value c"
    using last_element by simp_all
  then show ?case by blast
next
  case (more_elements w1 s v w2 es' vs')
  from value_text_head [OF more_elements(4)] obtain c cs where "s = c # cs" "starts_value c"
    by blast
  then have "es = w1 @ c # (cs @ w2 @ 44 # es')" "ws_text w1" "starts_value c"
    using more_elements by simp_all
  then show ?case by blast
qed

lemma members_text_head:
  "members_text jh ms kvs \<Longrightarrow> \<exists>w cs. ms = w @ 34 # cs \<and> ws_text w"
  by (induction rule: members_text.cases) auto

lemma is_ws_simps: "\<not> is_ws 34" "\<not> is_ws 44" "\<not> is_ws 58" "\<not> is_ws 93" "\<not> is_ws 125"
  by (simp_all add: is_ws_def)

lemma stops_number_ws: "ws_text w \<Longrightarrow> \<not> is_ws c \<Longrightarrow> c = 44 \<or> c = 93 \<or> c = 125 \<Longrightarrow>
  stops_number (w @ c # rest)"
  by (cases w) (auto simp: stops_number_def ws_text_def is_ws_def is_digit_def)

lemma stops_number_ws_end: "ws_text w \<Longrightarrow> stops_number w"
  by (cases w) (auto simp: stops_number_def ws_text_def is_ws_def is_digit_def)

lemma literal_complete:
  "literal word v (js word @ rest) = Some (v, rest)"
  by (simp add: literal_def js_def)

lemma parse_complete:
  shows "value_text jh s v \<Longrightarrow>
      (\<forall>n rest. length s \<le> n \<longrightarrow> stops_number rest \<longrightarrow> parse_value jh n (s @ rest) = Some (v, rest))"
    and "elements_text jh es vs \<Longrightarrow>
      (\<forall>n rest. length es < n \<longrightarrow> parse_elements jh n (es @ 93 # rest) = Some (vs, rest))"
    and "members_text jh ms kvs \<Longrightarrow>
      (\<forall>n rest. length ms < n \<longrightarrow> parse_members jh n (ms @ 125 # rest) = Some (kvs, rest))"
proof (induction rule: value_text_elements_text_members_text.inducts)
  case null
  show ?case
  proof (intro allI impI)
    fix n rest assume "length (js ''null'') \<le> n"
    then obtain n' where "n = Suc n'" by (cases n) (simp_all add: js_def)
    then show "parse_value jh n (js ''null'' @ rest) = Some (JNull, rest)"
      using literal_complete [of "''null''" JNull rest] by (simp add: js_def)
  qed
next
  case true
  show ?case
  proof (intro allI impI)
    fix n rest assume "length (js ''true'') \<le> n"
    then obtain n' where "n = Suc n'" by (cases n) (simp_all add: js_def)
    then show "parse_value jh n (js ''true'' @ rest) = Some (JBool True, rest)"
      using literal_complete [of "''true''" "JBool True" rest] by (simp add: js_def)
  qed
next
  case false
  show ?case
  proof (intro allI impI)
    fix n rest assume "length (js ''false'') \<le> n"
    then obtain n' where "n = Suc n'" by (cases n) (simp_all add: js_def)
    then show "parse_value jh n (js ''false'' @ rest) = Some (JBool False, rest)"
      using literal_complete [of "''false''" "JBool False" rest] by (simp add: js_def)
  qed
next
  case (number s m)
  show ?case
  proof (intro allI impI)
    fix n rest assume len: "length s \<le> n" and stop: "stops_number rest"
    from number_text_head [OF number] obtain c cs where s: "s = c # cs" and c: "c = 45 \<or> is_digit c"
      by (cases s) auto
    from len s obtain n' where n: "n = Suc n'" by (cases n) simp_all
    from c have "c \<noteq> 110" "c \<noteq> 116" "c \<noteq> 102" "c \<noteq> 34" "c \<noteq> 91" "c \<noteq> 123"
      by (auto simp: is_digit_def)
    moreover have "lex_number (c # cs @ rest) = Some (m, rest)"
      using lex_number_complete [OF number stop] s by simp
    ultimately show "parse_value jh n (s @ rest) = Some (to_number jh m, rest)"
      using c by (simp add: n s)
  qed
next
  case (string t s)
  show ?case
  proof (intro allI impI)
    fix n rest assume "length (34 # t @ [34]) \<le> n"
    then obtain n' where "n = Suc n'" by (cases n) simp_all
    then show "parse_value jh n ((34 # t @ [34]) @ rest) = Some (JStr s, rest)"
      using parse_chars_complete [OF string, of rest] by simp
  qed
next
  case (empty_array w)
  show ?case
  proof (intro allI impI)
    fix n rest assume "length (91 # w @ [93]) \<le> n"
    then obtain n' where "n = Suc n'" by (cases n) simp_all
    moreover have "skip_ws (w @ 93 # rest) = 93 # rest"
      using empty_array by (simp add: skip_ws_append skip_ws_stop is_ws_simps)
    ultimately show "parse_value jh n ((91 # w @ [93]) @ rest) = Some (JArr [], rest)"
      by simp
  qed
next
  case (array es vs)
  show ?case
  proof (intro allI impI)
    fix n rest assume len: "length (91 # es @ [93]) \<le> n"
    then obtain n' where n: "n = Suc n'" by (cases n) simp_all
    with len have "length es < n'" by simp
    with array.IH(2) have p: "parse_elements jh n' (es @ 93 # rest) = Some (vs, rest)"
      by blast
    from elements_text_head [OF array.IH(1)] obtain w c cs
      where es: "es = w @ c # cs" and w: "ws_text w" and c: "starts_value c"
      by blast
    have "skip_ws (es @ 93 # rest) = c # cs @ 93 # rest"
      using w starts_value_not_ws [OF c] by (simp add: es skip_ws_append skip_ws_stop)
    then show "parse_value jh n ((91 # es @ [93]) @ rest) = Some (JArr vs, rest)"
      using p starts_value_not_ws [OF c] by (simp add: n)
  qed
next
  case (empty_object w)
  show ?case
  proof (intro allI impI)
    fix n rest assume "length (123 # w @ [125]) \<le> n"
    then obtain n' where "n = Suc n'" by (cases n) simp_all
    moreover have "skip_ws (w @ 125 # rest) = 125 # rest"
      using empty_object by (simp add: skip_ws_append skip_ws_stop is_ws_simps)
    ultimately show "parse_value jh n ((123 # w @ [125]) @ rest) = Some (JObj [], rest)"
      by simp
  qed
next
  case (object ms kvs)
  show ?case
  proof (intro allI impI)
    fix n rest assume len: "length (123 # ms @ [125]) \<le> n"
    then obtain n' where n: "n = Suc n'" by (cases n) simp_all
    with len have "length ms < n'" by simp
    with object.IH(2) have p: "parse_members jh n' (ms @ 125 # rest) = Some (kvs, rest)"
      by blast
    from members_text_head [OF object.IH(1)] obtain w cs
      where ms: "ms = w @ 34 # cs" and w: "ws_text w"
      by blast
    have "skip_ws (ms @ 125 # rest) = 34 # cs @ 125 # rest"
      using w by (simp add: ms skip_ws_append skip_ws_stop is_ws_simps)
    then show "parse_value jh n ((123 # ms @ [125]) @ rest)
        = Some (JObj (foldl put_member [] kvs), rest)"
      using p by (simp add: n)
  qed
next
  case (last_element w1 s v w2)
  show ?case
  proof (intro allI impI)
    fix n rest assume len: "length (w1 @ s @ w2) < n"
    then obtain n' where n: "n = Suc n'" by (cases n) simp_all
    from value_text_head [OF last_element.IH(1)] obtain c cs where s: "s = c # cs" and c: "starts_value c"
      by blast
    have a: "skip_ws ((w1 @ s @ w2) @ 93 # rest) = s @ w2 @ 93 # rest"
      using last_element.hyps(1) starts_value_not_ws [OF c] by (simp add: s skip_ws_append skip_ws_stop)
    have "length s \<le> n'" using len n by simp
    moreover have "stops_number (w2 @ 93 # rest)"
      using last_element.hyps(2) by (intro stops_number_ws) (simp_all add: is_ws_simps)
    ultimately have b: "parse_value jh n' (s @ w2 @ 93 # rest) = Some (v, w2 @ 93 # rest)"
      using last_element.IH(2) by blast
    have d: "skip_ws (w2 @ 93 # rest) = 93 # rest"
      using last_element.hyps(2) by (simp add: skip_ws_append skip_ws_stop is_ws_simps)
    show "parse_elements jh n ((w1 @ s @ w2) @ 93 # rest) = Some ([v], rest)"
      unfolding n parse_elements.simps a b by (simp add: d)
  qed
next
  case (more_elements w1 s v w2 es vs)
  show ?case
  proof (intro allI impI)
    fix n rest assume len: "length (w1 @ s @ w2 @ 44 # es) < n"
    then obtain n' where n: "n = Suc n'" by (cases n) simp_all
    from value_text_head [OF more_elements.IH(1)] obtain c cs where s: "s = c # cs" and c: "starts_value c"
      by blast
    let ?tail = "w2 @ 44 # es @ 93 # rest"
    have a: "skip_ws ((w1 @ s @ w2 @ 44 # es) @ 93 # rest) = s @ ?tail"
      using more_elements.hyps(1) starts_value_not_ws [OF c] by (simp add: s skip_ws_append skip_ws_stop)
    have "length s \<le> n'" using len n by simp
    moreover have "stops_number ?tail"
      using more_elements.hyps(2) by (intro stops_number_ws) (simp_all add: is_ws_simps)
    ultimately have b: "parse_value jh n' (s @ ?tail) = Some (v, ?tail)"
      using more_elements.IH(2) by blast
    have d: "skip_ws ?tail = 44 # es @ 93 # rest"
      using more_elements.hyps(2) by (simp add: skip_ws_append skip_ws_stop is_ws_simps)
    have "length es < n'" using len n by simp
    then have e: "parse_elements jh n' (es @ 93 # rest) = Some (vs, rest)"
      using more_elements.IH(4) by blast
    show "parse_elements jh n ((w1 @ s @ w2 @ 44 # es) @ 93 # rest) = Some (v # vs, rest)"
      unfolding n parse_elements.simps a b by (simp add: d e)
  qed
next
  case (last_member w1 t k w2 w3 s v w4)
  show ?case
  proof (intro allI impI)
    fix n rest assume len: "length (w1 @ 34 # t @ 34 # w2 @ 58 # w3 @ s @ w4) < n"
    then obtain n' where n: "n = Suc n'" by (cases n) simp_all
    from value_text_head [OF last_member.IH(1)] obtain c cs where s: "s = c # cs" and c: "starts_value c"
      by blast
    let ?tail = "w4 @ 125 # rest"
    have a: "skip_ws ((w1 @ 34 # t @ 34 # w2 @ 58 # w3 @ s @ w4) @ 125 # rest)
        = 34 # t @ 34 # w2 @ 58 # w3 @ s @ ?tail"
      using last_member.hyps(1) by (simp add: skip_ws_append skip_ws_stop is_ws_simps)
    have k: "parse_chars (t @ 34 # w2 @ 58 # w3 @ s @ ?tail) = Some (k, w2 @ 58 # w3 @ s @ ?tail)"
      by (rule parse_chars_complete [OF last_member.hyps(2)])
    have b: "skip_ws (w2 @ 58 # w3 @ s @ ?tail) = 58 # w3 @ s @ ?tail"
      using last_member.hyps(3) by (simp add: skip_ws_append skip_ws_stop is_ws_simps)
    have b': "skip_ws (w3 @ s @ ?tail) = s @ ?tail"
      using last_member.hyps(4) starts_value_not_ws [OF c] by (simp add: s skip_ws_append skip_ws_stop)
    have "length s \<le> n'" using len n by simp
    moreover have "stops_number ?tail"
      using last_member.hyps(5) by (intro stops_number_ws) (simp_all add: is_ws_simps)
    ultimately have p: "parse_value jh n' (s @ ?tail) = Some (v, ?tail)"
      using last_member.IH(2) by blast
    have d: "skip_ws ?tail = 125 # rest"
      using last_member.hyps(5) by (simp add: skip_ws_append skip_ws_stop is_ws_simps)
    show "parse_members jh n ((w1 @ 34 # t @ 34 # w2 @ 58 # w3 @ s @ w4) @ 125 # rest)
        = Some ([(k, v)], rest)"
      unfolding n parse_members.simps a by (simp add: k b b' p d)
  qed
next
  case (more_members w1 t k w2 w3 s v w4 ms kvs)
  show ?case
  proof (intro allI impI)
    fix n rest assume len: "length (w1 @ 34 # t @ 34 # w2 @ 58 # w3 @ s @ w4 @ 44 # ms) < n"
    then obtain n' where n: "n = Suc n'" by (cases n) simp_all
    from value_text_head [OF more_members.IH(1)] obtain c cs where s: "s = c # cs" and c: "starts_value c"
      by blast
    let ?tail = "w4 @ 44 # ms @ 125 # rest"
    have a: "skip_ws ((w1 @ 34 # t @ 34 # w2 @ 58 # w3 @ s @ w4 @ 44 # ms) @ 125 # rest)
        = 34 # t @ 34 # w2 @ 58 # w3 @ s @ ?tail"
      using more_members.hyps(1) by (simp add: skip_ws_append skip_ws_stop is_ws_simps)
    have k: "parse_chars (t @ 34 # w2 @ 58 # w3 @ s @ ?tail) = Some (k, w2 @ 58 # w3 @ s @ ?tail)"
      by (rule parse_chars_complete [OF more_members.hyps(2)])
    have b: "skip_ws (w2 @ 58 # w3 @ s @ ?tail) = 58 # w3 @ s @ ?tail"
      using more_members.hyps(3) by (simp add: skip_ws_append skip_ws_stop is_ws_simps)
    have b': "skip_ws (w3 @ s @ ?tail) = s @ ?tail"
      using more_members.hyps(4) starts_value_not_ws [OF c] by (simp add: s skip_ws_append skip_ws_stop)
    have "length s \<le> n'" using len n by simp
    moreover have "stops_number ?tail"
      using more_members.hyps(5) by (intro stops_number_ws) (simp_all add: is_ws_simps)
    ultimately have p: "parse_value jh n' (s @ ?tail) = Some (v, ?tail)"
      using more_members.IH(2) by blast
    have d: "skip_ws ?tail = 44 # ms @ 125 # rest"
      using more_members.hyps(5) by (simp add: skip_ws_append skip_ws_stop is_ws_simps)
    have "length ms < n'" using len n by simp
    then have e: "parse_members jh n' (ms @ 125 # rest) = Some (kvs, rest)"
      using more_members.IH(4) by blast
    show "parse_members jh n ((w1 @ 34 # t @ 34 # w2 @ 58 # w3 @ s @ w4 @ 44 # ms) @ 125 # rest)
        = Some ((k, v) # kvs, rest)"
      unfolding n parse_members.simps a by (simp add: k b b' p d e)
  qed
qed

section \<open>Soundness of the parser\<close>

lemma skip_ws_split: "\<exists>w. ws_text w \<and> s = w @ skip_ws s"
proof -
  have "ws_text (takeWhile is_ws s)"
    by (induction s) (simp_all add: ws_text_def)
  moreover have "s = takeWhile is_ws s @ skip_ws s"
    by (simp add: skip_ws_def)
  ultimately show ?thesis by blast
qed

lemma literal_sound:
  assumes "literal word v0 s = Some (v, rest)"
  shows "v = v0" "s = js word @ rest"
proof -
  from assms have p: "prefix (js word) s" and v: "v = v0" and r: "rest = drop (length word) s"
    by (auto simp: literal_def split: if_splits)
  from p obtain zs where "s = js word @ zs" by (auto simp: prefix_def)
  moreover have "length (js word) = length word" by (simp add: js_def)
  ultimately have "s = js word @ rest" using r by simp
  with v show "v = v0" "s = js word @ rest" by simp_all
qed

lemma sound_value_step:
  assumes IH: "sound_at jh n" and res: "parse_value jh (Suc n) input = Some (v, rest)"
  shows "\<exists>s. value_text jh s v \<and> input = s @ rest"
proof -
  from res obtain c cs where input: "input = c # cs"
    by (cases input) simp_all
  consider (null) "c = 110" | (true) "c = 116" | (false) "c = 102" | (string) "c = 34"
    | (array) "c = 91" | (object) "c = 123"
    | (number) "c \<noteq> 110" "c \<noteq> 116" "c \<noteq> 102" "c \<noteq> 34" "c \<noteq> 91" "c \<noteq> 123"
    by blast
  then show ?thesis
  proof cases
    case null
    with res input have "literal ''null'' JNull input = Some (v, rest)" by simp
    from literal_sound [OF this] show ?thesis
      by (auto intro: value_text_elements_text_members_text.null)
  next
    case true
    with res input have "literal ''true'' (JBool True) input = Some (v, rest)" by simp
    from literal_sound [OF this] show ?thesis
      by (auto intro: value_text_elements_text_members_text.true)
  next
    case false
    with res input have "literal ''false'' (JBool False) input = Some (v, rest)" by simp
    from literal_sound [OF this] show ?thesis
      by (auto intro: value_text_elements_text_members_text.false)
  next
    case string
    with res input obtain s where p: "parse_chars cs = Some (s, rest)" and v: "v = JStr s"
      by (auto split: option.splits)
    from parse_chars_sound [OF p] obtain t where t: "string_text t s" and cs: "cs = t @ 34 # rest"
      by blast
    have "value_text jh (34 # t @ [34]) (JStr s)"
      using t by (rule value_text_elements_text_members_text.string)
    moreover have "input = (34 # t @ [34]) @ rest"
      using input string cs by simp
    ultimately show ?thesis using v by blast
  next
    case array
    obtain w where w: "ws_text w" and cs: "cs = w @ skip_ws cs"
      using skip_ws_split by blast
    from res input array obtain d r where sk: "skip_ws cs = d # r"
      by (cases "skip_ws cs") simp_all
    show ?thesis
    proof (cases "d = 93")
      case True
      with res input array sk have "v = JArr []" "rest = r" by simp_all
      moreover have "value_text jh (91 # w @ [93]) (JArr [])"
        using w by (rule value_text_elements_text_members_text.empty_array)
      moreover have "input = (91 # w @ [93]) @ r"
        using input array cs sk True by simp
      ultimately show ?thesis by blast
    next
      case False
      with res input array sk obtain vs where p: "parse_elements jh n cs = Some (vs, rest)"
        and v: "v = JArr vs"
        by (auto split: option.splits)
      from IH p obtain es where es: "elements_text jh es vs" and c: "cs = es @ 93 # rest"
        unfolding sound_at_def by blast
      have "value_text jh (91 # es @ [93]) (JArr vs)"
        using es by (rule value_text_elements_text_members_text.array)
      moreover have "input = (91 # es @ [93]) @ rest"
        using input array c by simp
      ultimately show ?thesis using v by blast
    qed
  next
    case object
    obtain w where w: "ws_text w" and cs: "cs = w @ skip_ws cs"
      using skip_ws_split by blast
    from res input object obtain d r where sk: "skip_ws cs = d # r"
      by (cases "skip_ws cs") simp_all
    show ?thesis
    proof (cases "d = 125")
      case True
      with res input object sk have "v = JObj []" "rest = r" by simp_all
      moreover have "value_text jh (123 # w @ [125]) (JObj [])"
        using w by (rule value_text_elements_text_members_text.empty_object)
      moreover have "input = (123 # w @ [125]) @ r"
        using input object cs sk True by simp
      ultimately show ?thesis by blast
    next
      case False
      with res input object sk obtain kvs where p: "parse_members jh n cs = Some (kvs, rest)"
        and v: "v = JObj (foldl put_member [] kvs)"
        by (auto split: option.splits)
      from IH p obtain ms where ms: "members_text jh ms kvs" and c: "cs = ms @ 125 # rest"
        unfolding sound_at_def by blast
      have "value_text jh (123 # ms @ [125]) (JObj (foldl put_member [] kvs))"
        using ms by (rule value_text_elements_text_members_text.object)
      moreover have "input = (123 # ms @ [125]) @ rest"
        using input object c by simp
      ultimately show ?thesis using v by blast
    qed
  next
    case number
    with res input obtain m where l: "lex_number input = Some (m, rest)" and v: "v = to_number jh m"
      by (auto split: if_splits option.splits)
    from lex_number_sound [OF l] obtain s where "number_text s m" "input = s @ rest"
      by blast
    then show ?thesis
      using v by (auto intro: value_text_elements_text_members_text.number)
  qed
qed


lemma sound_elements_step:
  assumes IH: "sound_at jh n" and res: "parse_elements jh (Suc n) input = Some (vs, rest)"
  shows "\<exists>es. elements_text jh es vs \<and> input = es @ 93 # rest"
proof -
  obtain w1 where w1: "ws_text w1" and input: "input = w1 @ skip_ws input"
    using skip_ws_split by blast
  from res obtain v r where pv: "parse_value jh n (skip_ws input) = Some (v, r)"
    by (auto split: option.splits)
  from IH pv obtain s where s: "value_text jh s v" and sk: "skip_ws input = s @ r"
    unfolding sound_at_def by blast
  obtain w2 where w2: "ws_text w2" and r: "r = w2 @ skip_ws r"
    using skip_ws_split by blast
  from res pv obtain d r' where skr: "skip_ws r = d # r'"
    by (cases "skip_ws r") simp_all
  have whole: "input = w1 @ s @ w2 @ d # r'"
    using input sk r skr by simp
  show ?thesis
  proof (cases "d = 44")
    case True
    with res pv skr obtain vs' where pe: "parse_elements jh n r' = Some (vs', rest)"
      and vs: "vs = v # vs'"
      by (auto split: option.splits)
    from IH pe obtain es where es: "elements_text jh es vs'" and r': "r' = es @ 93 # rest"
      unfolding sound_at_def by blast
    have "elements_text jh (w1 @ s @ w2 @ 44 # es) (v # vs')"
      using w1 s w2 es by (rule value_text_elements_text_members_text.more_elements)
    moreover have "input = (w1 @ s @ w2 @ 44 # es) @ 93 # rest"
      using whole True r' by simp
    ultimately show ?thesis using vs by blast
  next
    case False
    with res pv skr have d: "d = 93" and vs: "vs = [v]" and rest: "rest = r'"
      by (auto split: if_splits)
    have "elements_text jh (w1 @ s @ w2) [v]"
      using w1 s w2 by (rule value_text_elements_text_members_text.last_element)
    moreover have "input = (w1 @ s @ w2) @ 93 # rest"
      using whole d rest by simp
    ultimately show ?thesis using vs by blast
  qed
qed

lemma sound_members_step:
  assumes IH: "sound_at jh n" and res: "parse_members jh (Suc n) input = Some (kvs, rest)"
  shows "\<exists>ms. members_text jh ms kvs \<and> input = ms @ 125 # rest"
proof -
  obtain w1 where w1: "ws_text w1" and input: "input = w1 @ skip_ws input"
    using skip_ws_split by blast
  from res obtain q s1 where sk1: "skip_ws input = q # s1"
    by (cases "skip_ws input") simp_all
  from res sk1 have q: "q = 34"
    by (auto split: if_splits)
  from res sk1 q obtain k s2 where pk: "parse_chars s1 = Some (k, s2)"
    by (auto split: option.splits)
  from parse_chars_sound [OF pk] obtain t where t: "string_text t k" and s1: "s1 = t @ 34 # s2"
    by blast
  obtain w2 where w2: "ws_text w2" and s2: "s2 = w2 @ skip_ws s2"
    using skip_ws_split by blast
  from res sk1 q pk obtain colon s3 where sk2: "skip_ws s2 = colon # s3"
    by (cases "skip_ws s2") simp_all
  from res sk1 q pk sk2 have colon: "colon = 58"
    by (auto split: if_splits)
  obtain w3 where w3: "ws_text w3" and s3: "s3 = w3 @ skip_ws s3"
    using skip_ws_split by blast
  from res sk1 q pk sk2 colon obtain v r where pv: "parse_value jh n (skip_ws s3) = Some (v, r)"
    by (auto split: option.splits)
  from IH pv obtain s where s: "value_text jh s v" and sk3: "skip_ws s3 = s @ r"
    unfolding sound_at_def by blast
  obtain w4 where w4: "ws_text w4" and r: "r = w4 @ skip_ws r"
    using skip_ws_split by blast
  from res sk1 q pk sk2 colon pv obtain d r' where skr: "skip_ws r = d # r'"
    by (cases "skip_ws r") simp_all
  have "s3 = w3 @ s @ w4 @ d # r'"
    using s3 sk3 r skr by simp
  then have "s2 = w2 @ 58 # w3 @ s @ w4 @ d # r'"
    using s2 sk2 colon by simp
  then have whole: "input = w1 @ 34 # t @ 34 # w2 @ 58 # w3 @ s @ w4 @ d # r'"
    using input sk1 q s1 by simp
  show ?thesis
  proof (cases "d = 44")
    case True
    with res sk1 q pk sk2 colon pv skr obtain kvs' where pm: "parse_members jh n r' = Some (kvs', rest)"
      and kvs: "kvs = (k, v) # kvs'"
      by (auto split: option.splits)
    from IH pm obtain ms where ms: "members_text jh ms kvs'" and r': "r' = ms @ 125 # rest"
      unfolding sound_at_def by blast
    have "members_text jh (w1 @ 34 # t @ 34 # w2 @ 58 # w3 @ s @ w4 @ 44 # ms) ((k, v) # kvs')"
      using w1 t w2 w3 s w4 ms by (rule value_text_elements_text_members_text.more_members)
    moreover have "input = (w1 @ 34 # t @ 34 # w2 @ 58 # w3 @ s @ w4 @ 44 # ms) @ 125 # rest"
      using whole True r' by simp
    ultimately show ?thesis using kvs by blast
  next
    case False
    with res sk1 q pk sk2 colon pv skr have d: "d = 125" and kvs: "kvs = [(k, v)]" and rest: "rest = r'"
      by (auto split: if_splits)
    have "members_text jh (w1 @ 34 # t @ 34 # w2 @ 58 # w3 @ s @ w4) [(k, v)]"
      using w1 t w2 w3 s w4 by (rule value_text_elements_text_members_text.last_member)
    moreover have "input = (w1 @ 34 # t @ 34 # w2 @ 58 # w3 @ s @ w4) @ 125 # rest"
      using whole d rest by simp
    ultimately show ?thesis using kvs by blast
  qed
qed

lemma sound_at_all: "sound_at jh n"
proof (induction n)
  case 0
  show ?case by (simp add: sound_at_def)
next
  case (Suc n)
  show ?case
    unfolding sound_at_def
    using sound_value_step [OF Suc] sound_elements_step [OF Suc] sound_members_step [OF Suc]
    by blast
qed

lemma parse_text_sound: "parse_text jh text = Some v \<Longrightarrow> json_text jh text v"
proof -
  assume p: "parse_text jh text = Some v"
  obtain w1 where w1: "ws_text w1" and tx: "text = w1 @ skip_ws text"
    using skip_ws_split by blast
  from p obtain rest where pv: "parse_value jh (length text) (skip_ws text) = Some (v, rest)"
    and e: "skip_ws rest = []"
    by (auto simp: parse_text_def split: option.splits if_splits)
  from sound_at_all [of jh "length text"] pv obtain s where s: "value_text jh s v"
    and sk: "skip_ws text = s @ rest"
    unfolding sound_at_def by blast
  obtain w2 where "ws_text w2" "rest = w2 @ skip_ws rest"
    using skip_ws_split by blast
  with e have w2: "ws_text rest" by simp
  have "text = w1 @ s @ rest" using tx sk by simp
  with w1 s w2 show ?thesis unfolding json_text_def by blast
qed

lemma parse_text_complete: "json_text jh text v \<Longrightarrow> parse_text jh text = Some v"
proof -
  assume "json_text jh text v"
  then obtain w1 s w2 where w1: "ws_text w1" and s: "value_text jh s v" and w2: "ws_text w2"
    and tx: "text = w1 @ s @ w2"
    unfolding json_text_def by blast
  from value_text_head [OF s] obtain c cs where c: "s = c # cs" "starts_value c"
    by blast
  have sk: "skip_ws text = s @ w2"
    using w1 starts_value_not_ws [OF c(2)] by (simp add: tx c(1) skip_ws_append skip_ws_stop)
  have "length s \<le> length text" by (simp add: tx)
  moreover have "stops_number w2" using w2 by (rule stops_number_ws_end)
  ultimately have "parse_value jh (length text) (s @ w2) = Some (v, w2)"
    using parse_complete(1) [OF s] by blast
  then show ?thesis
    using w2 by (simp add: parse_text_def sk skip_ws_Nil)
qed

lemma parse_text_iff: "parse_text jh text = Some v \<longleftrightarrow> json_text jh text v"
  using parse_text_sound parse_text_complete by blast

section \<open>The parser against the grammar\<close>

lemmas json_eval = safeParse_def json_parse_def parse_text_def skip_ws_def is_ws_def literal_def
  lex_number_def number_value_def scale10_def to_number_def overflow_bound_def decimal_host_def
  put_member_def is_array_index_def hex4_value_def hex_value_def unescape_def

text \<open>
  C4. \<open>safeParse\<close> returns a value for a text exactly when the text is syntactically
  valid JSON by the standard grammar, and the value is the one the grammar gives the
  text, which is what a standard-compliant parser returns: a valid text never fails, and
  a text outside the grammar never yields a value.
\<close>

theorem C4_parse_value:
  "(safeParse (json_parse jh) text = Inr v) = json_text jh text v"
  by (simp add: safeParse_value json_parse_def parse_text_iff [symmetric] split: option.splits)

theorem C4_parse_value_witness:
  "safeParse (json_parse decimal_host) (js ''[1, true]'') = Inr (JArr [JNum 1, JBool True])
   \<and> json_text decimal_host (js ''[1, true]'') (JArr [JNum 1, JBool True])
   \<and> safeParse (json_parse decimal_host) (js ''[1,]'')
       = Inl (SyntaxError (js ''Unexpected end of JSON input''))
   \<and> (\<forall>v. \<not> json_text decimal_host (js ''[1,]'') v)"
proof -
  have a: "safeParse (json_parse decimal_host) (js ''[1, true]'') = Inr (JArr [JNum 1, JBool True])"
    by (simp add: json_eval string_eval)
  have b: "safeParse (json_parse decimal_host) (js ''[1,]'')
       = Inl (SyntaxError (js ''Unexpected end of JSON input''))"
    by (simp add: json_eval string_eval)
  from a have "json_text decimal_host (js ''[1, true]'') (JArr [JNum 1, JBool True])"
    by (simp only: C4_parse_value)
  moreover from b have "\<forall>v. \<not> json_text decimal_host (js ''[1,]'') v"
    by (simp add: C4_parse_value [symmetric])
  ultimately show ?thesis using a b by simp
qed

end
